theory Spec2Isabelle
  imports Main "HOL-Library.Word"
begin

section \<open>Values, errors and the shared store\<close>

text \<open>
  The pipeline engine of \<^verbatim>\<open>sources/tools.py\<close>, the stages of
  \<^verbatim>\<open>sources/ibm_realization.py\<close> and the connection handler of \<^verbatim>\<open>app.py\<close>.
  Python objects are mutable and shared by reference, so the stage objects and the
  \<^verbatim>\<open>multiprocessing.Queue\<close> objects live in an explicit store and are named by
  addresses; every operation takes the store and returns the updated one.
\<close>

type_synonym byte = "8 word"

text \<open>The payloads that travel through the queues: \<^verbatim>\<open>None\<close>, numbers, \<^verbatim>\<open>bytes\<close>, \<^verbatim>\<open>str\<close>.\<close>

datatype pyval = PyNone | PyInt int | PyBytes "byte list" | PyStr string

text \<open>Python truthiness, as tested by \<^verbatim>\<open>if not data\<close>.\<close>

fun truthy :: "pyval \<Rightarrow> bool" where
  "truthy PyNone = False"
| "truthy (PyInt n) = (n \<noteq> 0)"
| "truthy (PyBytes bs) = (bs \<noteq> [])"
| "truthy (PyStr s) = (s \<noteq> [])"

text \<open>
  The exceptions the modelled code can raise: indexing an empty list, calling a method
  on \<^verbatim>\<open>None\<close>, and \<^verbatim>\<open>queue.Empty\<close> from \<^verbatim>\<open>Queue.get\<close>.
\<close>

datatype error = IndexError | AttributeError | Empty

text \<open>
  The result of a call that may wait: it returned, it raised, or it is still waiting at
  the end of the observed behaviour of the other processes.
\<close>

datatype 'a outcome = Returned 'a | Raised error | Blocked

type_synonym chan = nat
type_synonym addr = nat
type_synonym pid = nat

text \<open>The concrete class of a stage object selects which \<^verbatim>\<open>act\<close> its worker runs.\<close>

datatype service_class =
    IbmSttService string string
  | AnswerService
  | IbmTtsService string string

record ProcessService =
  service_class :: service_class
  input_buffer :: "chan option"
  output_buffer :: "chan option"

text \<open>
  A worker process. \<^verbatim>\<open>Process(target=service.act)\<close> hands the child its own copy of
  the stage object, so the worker keeps the stage as it was when it was spawned.
  \<open>Ready\<close>: at the top of the work loop; \<open>Holding v\<close>: a unit has been read and
  is being transformed; \<open>Dead\<close>: an exception left \<^verbatim>\<open>act\<close> and ended the process.
\<close>

datatype wstate = Ready | Holding pyval | Dead

record worker =
  target :: ProcessService
  wstate :: wstate

record world =
  queues :: "chan \<Rightarrow> pyval list"
  next_queue :: chan
  objects :: "addr \<Rightarrow> ProcessService"
  next_object :: addr
  workers :: "worker list"

section \<open>Queues\<close>

text \<open>\<^verbatim>\<open>Queue()\<close>: a new, empty, unbounded FIFO.\<close>

definition Queue :: "world \<Rightarrow> chan \<times> world" where
  "Queue w =
     (next_queue w,
      w\<lparr>queues := (queues w)(next_queue w := []), next_queue := Suc (next_queue w)\<rparr>)"

definition Queue_put :: "chan \<Rightarrow> pyval \<Rightarrow> world \<Rightarrow> world" where
  "Queue_put q v w = w\<lparr>queues := (queues w)(q := queues w q @ [v])\<rparr>"

definition Queue_empty :: "chan \<Rightarrow> world \<Rightarrow> bool" where
  "Queue_empty q w = (queues w q = [])"

section \<open>Stages\<close>

text \<open>\<^verbatim>\<open>ProcessService.__init__\<close>: a new stage object with both buffers \<^verbatim>\<open>None\<close>.\<close>

definition ProcessService_init :: "service_class \<Rightarrow> world \<Rightarrow> addr \<times> world" where
  "ProcessService_init c w =
     (next_object w,
      w\<lparr>objects := (objects w)
           (next_object w := \<lparr>service_class = c, input_buffer = None, output_buffer = None\<rparr>),
        next_object := Suc (next_object w)\<rparr>)"

definition set_input_buffer :: "addr \<Rightarrow> chan option \<Rightarrow> world \<Rightarrow> world" where
  "set_input_buffer self buffer w =
     w\<lparr>objects := (objects w)(self := (objects w self)\<lparr>input_buffer := buffer\<rparr>)\<rparr>"

definition set_output_buffer :: "addr \<Rightarrow> chan option \<Rightarrow> world \<Rightarrow> world" where
  "set_output_buffer self buffer w =
     w\<lparr>objects := (objects w)(self := (objects w self)\<lparr>output_buffer := buffer\<rparr>)\<rparr>"

section \<open>Manager\<close>

record Manager =
  services :: "addr list"
  processes :: "pid list"

record Client = Manager +
  client_id :: nat
  running :: bool

text \<open>
  The wiring loop of \<^verbatim>\<open>Manager.__init__\<close> over \<^verbatim>\<open>enumerate(services)\<close>; the
  second argument is \<^verbatim>\<open>self.services\<close> as built so far.
\<close>

fun wire :: "(nat \<times> addr) list \<Rightarrow> addr list \<Rightarrow> world \<Rightarrow> error + (addr list \<times> world)" where
  "wire [] acc w = Inr (acc, w)"
| "wire ((key, service) # rest) acc w =
     (let (output_buffer', w1) = Queue w in
      if key = 0 then
        (let (input_buffer', w2) = Queue w1;
             w3 = set_input_buffer service (Some input_buffer') w2;
             w4 = set_output_buffer service (Some output_buffer') w3
         in wire rest (acc @ [service]) w4)
      else if acc = [] then Inl IndexError
      else
        (let input_buffer' = output_buffer (objects w1 (last acc));
             w3 = set_input_buffer service input_buffer' w1;
             w4 = set_output_buffer service (Some output_buffer') w3
         in wire rest (acc @ [service]) w4))"

definition Manager_init :: "addr list \<Rightarrow> world \<Rightarrow> error + (Manager \<times> world)" where
  "Manager_init svcs w =
     (case wire (enumerate 0 svcs) [] w of
        Inl e \<Rightarrow> Inl e
      | Inr (acc, w') \<Rightarrow> Inr (\<lparr>services = acc, processes = []\<rparr>, w'))"

text \<open>\<^verbatim>\<open>Process(target=service.act, args=())\<close> followed by \<^verbatim>\<open>process.start()\<close>.\<close>

definition Process_start :: "ProcessService \<Rightarrow> world \<Rightarrow> pid \<times> world" where
  "Process_start svc w =
     (length (workers w), w\<lparr>workers := workers w @ [\<lparr>target = svc, wstate = Ready\<rparr>]\<rparr>)"

text \<open>The loop of \<^verbatim>\<open>Manager.start\<close>; the second argument is \<^verbatim>\<open>self.processes\<close>.\<close>

fun start_loop :: "addr list \<Rightarrow> pid list \<Rightarrow> world \<Rightarrow> pid list \<times> world" where
  "start_loop [] procs w = (procs, w)"
| "start_loop (service # rest) procs w =
     (let (process, w') = Process_start (objects w service) w
      in start_loop rest (procs @ [process]) w')"

definition start :: "'a Manager_scheme \<Rightarrow> world \<Rightarrow> 'a Manager_scheme \<times> world" where
  "start self w =
     (let (procs, w') = start_loop (services self) (processes self) w
      in (self\<lparr>processes := procs\<rparr>, w'))"

text \<open>The loop of \<^verbatim>\<open>Manager.__enter__\<close>, written out a second time in the source.\<close>

fun enter_loop :: "addr list \<Rightarrow> pid list \<Rightarrow> world \<Rightarrow> pid list \<times> world" where
  "enter_loop [] procs w = (procs, w)"
| "enter_loop (service # rest) procs w =
     (let (process, w') = Process_start (objects w service) w
      in enter_loop rest (procs @ [process]) w')"

text \<open>\<^verbatim>\<open>__enter__\<close> returns \<^verbatim>\<open>self\<close>: the first component is the returned object.\<close>

definition Manager_enter ::
  "'a Manager_scheme \<Rightarrow> world \<Rightarrow> 'a Manager_scheme \<times> 'a Manager_scheme \<times> world" where
  "Manager_enter self w =
     (let (procs, w') = enter_loop (services self) (processes self) w;
          self' = self\<lparr>processes := procs\<rparr>
      in (self', self', w'))"

text \<open>\<^verbatim>\<open>__exit__\<close> is \<^verbatim>\<open>pass\<close>: it returns \<^verbatim>\<open>None\<close> and changes nothing.\<close>

definition Manager_exit :: "'a Manager_scheme \<Rightarrow> world \<Rightarrow> pyval \<times> 'a Manager_scheme \<times> world" where
  "Manager_exit self w = (PyNone, self, w)"

definition send :: "'a Manager_scheme \<Rightarrow> pyval \<Rightarrow> world \<Rightarrow> error + world" where
  "send self data w =
     (case services self of
        [] \<Rightarrow> Inl IndexError
      | first # _ \<Rightarrow>
          (case input_buffer (objects w first) of
             None \<Rightarrow> Inl AttributeError
           | Some q \<Rightarrow> Inr (Queue_put q data w)))"

text \<open>\<^verbatim>\<open>Client.__init__\<close>; the value of \<^verbatim>\<open>uuid1()\<close> is supplied by the caller.\<close>

definition Client_init :: "addr list \<Rightarrow> nat \<Rightarrow> world \<Rightarrow> error + (Client \<times> world)" where
  "Client_init svcs u w =
     (case Manager_init svcs w of
        Inl e \<Rightarrow> Inl e
      | Inr (m, w') \<Rightarrow>
          Inr (\<lparr>services = services m, processes = processes m,
                client_id = u, running = False\<rparr>, w'))"

section \<open>The stages' work loops\<close>

type_synonym candidate = "(string \<times> pyval) list"

text \<open>\<^verbatim>\<open>d.get(k)\<close> on a dictionary: \<^verbatim>\<open>None\<close> when the key is absent.\<close>

definition dict_get :: "candidate \<Rightarrow> string \<Rightarrow> pyval" where
  "dict_get d k = (case map_of d k of None \<Rightarrow> PyNone | Some v \<Rightarrow> v)"

text \<open>\<^verbatim>\<open>IbmSttService.receive_transcript\<close>: \<^verbatim>\<open>transcript[0].get('transcript')\<close>.\<close>

definition receive_transcript :: "candidate list \<Rightarrow> error + pyval" where
  "receive_transcript transcript =
     (case transcript of
        [] \<Rightarrow> Inl IndexError
      | best # _ \<Rightarrow> Inr (dict_get best ''transcript''))"

definition on_transcription :: "ProcessService \<Rightarrow> candidate list \<Rightarrow> world \<Rightarrow> error + world" where
  "on_transcription self transcript w =
     (case receive_transcript transcript of
        Inl e \<Rightarrow> Inl e
      | Inr message \<Rightarrow>
          (case output_buffer self of
             None \<Rightarrow> Inl AttributeError
           | Some q \<Rightarrow> Inr (Queue_put q message w)))"

definition on_audio_stream :: "ProcessService \<Rightarrow> byte list \<Rightarrow> world \<Rightarrow> error + world" where
  "on_audio_stream self audio_data w =
     (case output_buffer self of
        None \<Rightarrow> Inl AttributeError
      | Some q \<Rightarrow> Inr (Queue_put q (PyBytes audio_data) w))"

text \<open>
  The two callbacks are not called by the stage but by the provider's SDK, from the
  loop that reads the provider's messages. That loop is library code outside the
  repository: it catches an exception raised by a callback, logs it and goes on with
  the next message. So a callback that raises leaves the store as it was and does not
  end the worker.
\<close>

definition dispatch :: "error + world \<Rightarrow> world \<Rightarrow> world" where
  "dispatch result w = (case result of Inl e \<Rightarrow> w | Inr w' \<Rightarrow> w')"

text \<open>
  What a worker can be made to do next. \<open>Run\<close> is the next statement of its own loop;
  the other three are the speech provider calling back into the stage
  (\<^verbatim>\<open>on_transcription\<close>, \<^verbatim>\<open>on_audio_stream\<close>) or finishing a synthesis request. The
  provider decides when they happen and with what data.
\<close>

datatype action =
    Run
  | OnTranscription "candidate list"
  | OnAudioStream "byte list"
  | SynthesisDone

text \<open>
  \<^verbatim>\<open>AnswerService.act\<close>: \<^verbatim>\<open>text = self.input_buffer.get()\<close>, then
  \<^verbatim>\<open>self.output_buffer.put(text)\<close>, forever. \<^verbatim>\<open>get()\<close> on an empty queue waits, so
  the step does nothing there.
\<close>

fun AnswerService_act :: "action \<Rightarrow> worker \<Rightarrow> world \<Rightarrow> worker \<times> world" where
  "AnswerService_act Run wk w =
     (case wstate wk of
        Ready \<Rightarrow>
          (case input_buffer (target wk) of
             None \<Rightarrow> (wk\<lparr>wstate := Dead\<rparr>, w)
           | Some q \<Rightarrow>
               (case queues w q of
                  [] \<Rightarrow> (wk, w)
                | text # rest \<Rightarrow>
                    (wk\<lparr>wstate := Holding text\<rparr>, w\<lparr>queues := (queues w)(q := rest)\<rparr>)))
      | Holding text \<Rightarrow>
          (case output_buffer (target wk) of
             None \<Rightarrow> (wk\<lparr>wstate := Dead\<rparr>, w)
           | Some q \<Rightarrow> (wk\<lparr>wstate := Ready\<rparr>, Queue_put q text w))
      | Dead \<Rightarrow> (wk, w))"
| "AnswerService_act _ wk w = (wk, w)"

text \<open>
  \<^verbatim>\<open>IbmTtsService.act\<close>: \<^verbatim>\<open>text = self.input_buffer.get()\<close>, then the synthesis
  request, during which the SDK's dispatcher calls \<^verbatim>\<open>on_audio_stream\<close>.
\<close>

fun IbmTtsService_act :: "action \<Rightarrow> worker \<Rightarrow> world \<Rightarrow> worker \<times> world" where
  "IbmTtsService_act Run wk w =
     (case wstate wk of
        Ready \<Rightarrow>
          (case input_buffer (target wk) of
             None \<Rightarrow> (wk\<lparr>wstate := Dead\<rparr>, w)
           | Some q \<Rightarrow>
               (case queues w q of
                  [] \<Rightarrow> (wk, w)
                | text # rest \<Rightarrow>
                    (wk\<lparr>wstate := Holding text\<rparr>, w\<lparr>queues := (queues w)(q := rest)\<rparr>)))
      | _ \<Rightarrow> (wk, w))"
| "IbmTtsService_act (OnAudioStream audio_data) wk w =
     (case wstate wk of
        Holding text \<Rightarrow> (wk, dispatch (on_audio_stream (target wk) audio_data w) w)
      | _ \<Rightarrow> (wk, w))"
| "IbmTtsService_act SynthesisDone wk w =
     (case wstate wk of
        Holding text \<Rightarrow> (wk\<lparr>wstate := Ready\<rparr>, w)
      | _ \<Rightarrow> (wk, w))"
| "IbmTtsService_act _ wk w = (wk, w)"

text \<open>
  \<^verbatim>\<open>IbmSttService.act\<close> hands the input queue to the SDK as its audio source and
  the stage as its callback object: the SDK's reader takes chunks from the input queue
  (without a queue it has nothing to take), and its dispatcher calls
  \<^verbatim>\<open>on_transcription\<close>.
\<close>

fun IbmSttService_act :: "action \<Rightarrow> worker \<Rightarrow> world \<Rightarrow> worker \<times> world" where
  "IbmSttService_act Run wk w =
     (case wstate wk of
        Ready \<Rightarrow>
          (case input_buffer (target wk) of
             None \<Rightarrow> (wk, w)
           | Some q \<Rightarrow>
               (case queues w q of
                  [] \<Rightarrow> (wk, w)
                | chunk # rest \<Rightarrow> (wk, w\<lparr>queues := (queues w)(q := rest)\<rparr>)))
      | _ \<Rightarrow> (wk, w))"
| "IbmSttService_act (OnTranscription transcript) wk w =
     (case wstate wk of
        Ready \<Rightarrow> (wk, dispatch (on_transcription (target wk) transcript w) w)
      | _ \<Rightarrow> (wk, w))"
| "IbmSttService_act _ wk w = (wk, w)"

text \<open>Dynamic dispatch of \<^verbatim>\<open>act\<close> on the class of the worker's stage.\<close>

definition act :: "action \<Rightarrow> worker \<Rightarrow> world \<Rightarrow> worker \<times> world" where
  "act a wk w =
     (case service_class (target wk) of
        IbmSttService key url \<Rightarrow> IbmSttService_act a wk w
      | AnswerService \<Rightarrow> AnswerService_act a wk w
      | IbmTtsService key url \<Rightarrow> IbmTtsService_act a wk w)"

text \<open>
  What happens around the calling process: one unit of time passes, or one worker
  performs one action. An action named for a process that does not exist does nothing.
\<close>

datatype event = Tick | Act pid action

definition env_step :: "event \<Rightarrow> world \<Rightarrow> world" where
  "env_step e w =
     (case e of
        Tick \<Rightarrow> w
      | Act p a \<Rightarrow>
          if p < length (workers w)
          then (let (wk', w') = act a (workers w ! p) w
                in w'\<lparr>workers := (workers w')[p := wk']\<rparr>)
          else w)"

fun run_env :: "event list \<Rightarrow> world \<Rightarrow> world" where
  "run_env [] w = w"
| "run_env (e # es) w = run_env es (env_step e w)"

section \<open>Receiving\<close>

text \<open>
  \<^verbatim>\<open>Queue.get(True, timeout)\<close>: wait for a unit while the other processes run. The
  schedule lists what they do meanwhile; \<open>Tick\<close> is one unit of the timeout's time.
  Without a timeout and without a unit the call is still waiting when the schedule ends.
\<close>

fun wait_get :: "chan \<Rightarrow> nat option \<Rightarrow> event list \<Rightarrow> world \<Rightarrow> (pyval \<times> world) outcome" where
  "wait_get q timeout [] w =
     (case queues w q of
        v # vs \<Rightarrow> Returned (v, w\<lparr>queues := (queues w)(q := vs)\<rparr>)
      | [] \<Rightarrow> if timeout = Some 0 then Raised Empty else Blocked)"
| "wait_get q timeout (e # rest) w =
     (case queues w q of
        v # vs \<Rightarrow> Returned (v, w\<lparr>queues := (queues w)(q := vs)\<rparr>)
      | [] \<Rightarrow>
          if timeout = Some 0 then Raised Empty
          else if e = Tick then wait_get q (map_option (\<lambda>t. t - 1) timeout) rest w
          else wait_get q timeout rest (env_step e w))"

text \<open>
  \<^verbatim>\<open>Queue.get(block, timeout)\<close>. Not blocking, it raises \<^verbatim>\<open>queue.Empty\<close> on an empty
  queue. A negative timeout counts as zero.
\<close>

definition Queue_get ::
  "chan \<Rightarrow> bool \<Rightarrow> int option \<Rightarrow> event list \<Rightarrow> world \<Rightarrow> (pyval \<times> world) outcome" where
  "Queue_get q block timeout sched w =
     (if block then wait_get q (map_option nat timeout) sched w
      else (case queues w q of
              [] \<Rightarrow> Raised Empty
            | v # vs \<Rightarrow> Returned (v, w\<lparr>queues := (queues w)(q := vs)\<rparr>)))"

definition receive ::
  "'a Manager_scheme \<Rightarrow> bool \<Rightarrow> int option \<Rightarrow> event list \<Rightarrow> world \<Rightarrow> (pyval \<times> world) outcome" where
  "receive self block timeout sched w =
     (if services self = [] then Raised IndexError
      else (case output_buffer (objects w (last (services self))) of
              None \<Rightarrow> Raised AttributeError
            | Some buffer \<Rightarrow>
                if block \<or> \<not> Queue_empty buffer w
                then Queue_get buffer block timeout sched w
                else Returned (PyNone, w)))"

section \<open>The connection handler\<close>

record config =
  STT_IBM_KEY :: string
  STT_IBM_URL :: string
  TTS_IBM_KEY :: string
  TTS_IBM_URL :: string

text \<open>
  One inbound frame of the connection, with what the worker processes do before each
  of the handler's three calls for it.
\<close>

record inbound =
  message :: pyval
  before_send :: "event list"
  before_start :: "event list"
  before_receive :: "event list"

datatype frame = Inbound pyval | Outbound pyval

text \<open>\<^verbatim>\<open>data = client.receive(False)\<close>, then \<^verbatim>\<open>if not data: data = b''\<close>.\<close>

definition poll :: "Client \<Rightarrow> world \<Rightarrow> (pyval \<times> world) outcome" where
  "poll client w =
     (case receive client False None [] w of
        Raised e \<Rightarrow> Raised e
      | Blocked \<Rightarrow> Blocked
      | Returned (data, w') \<Rightarrow> Returned (if \<not> truthy data then PyBytes [] else data, w'))"

text \<open>
  The first half of the body of \<^verbatim>\<open>async for message in websocket\<close>:
  \<^verbatim>\<open>client.send(message)\<close>, then, if \<^verbatim>\<open>not client.running\<close>, set the flag and
  \<^verbatim>\<open>client.start()\<close>. The result is the client and the store at the moment of the
  call of \<^verbatim>\<open>receive\<close>.
\<close>

definition push_and_start :: "inbound \<Rightarrow> Client \<Rightarrow> world \<Rightarrow> error + (Client \<times> world)" where
  "push_and_start i client w =
     (case send client (message i) (run_env (before_send i) w) of
        Inl e \<Rightarrow> Inl e
      | Inr w1 \<Rightarrow>
          (let (client', w2) =
                 (if \<not> running client
                  then start (client\<lparr>running := True\<rparr>) (run_env (before_start i) w1)
                  else (client, run_env (before_start i) w1))
           in Inr (client', run_env (before_receive i) w2)))"

text \<open>
  The loop over the inbound frames; \<^verbatim>\<open>await websocket.send(data)\<close> ends each round.
  The trace records the frames taken from and given to the peer, in order.
\<close>

fun serve ::
  "inbound list \<Rightarrow> Client \<Rightarrow> world \<Rightarrow> frame list \<Rightarrow> (frame list \<times> Client \<times> world) outcome" where
  "serve [] client w trace = Returned (trace, client, w)"
| "serve (i # rest) client w trace =
     (case push_and_start i client w of
        Inl e \<Rightarrow> Raised e
      | Inr (client', w2) \<Rightarrow>
          (case poll client' w2 of
             Raised e \<Rightarrow> Raised e
           | Blocked \<Rightarrow> Blocked
           | Returned (data, w3) \<Rightarrow>
               serve rest client' w3 (trace @ [Inbound (message i), Outbound data])))"

definition handle_connections ::
  "config \<Rightarrow> nat \<Rightarrow> inbound list \<Rightarrow> world \<Rightarrow> (frame list \<times> Client \<times> world) outcome" where
  "handle_connections cfg u websocket w =
     (let (stt_service, w1) =
            ProcessService_init (IbmSttService (STT_IBM_KEY cfg) (STT_IBM_URL cfg)) w;
          (tts_service, w2) =
            ProcessService_init (IbmTtsService (TTS_IBM_KEY cfg) (TTS_IBM_URL cfg)) w1;
          (answer_service, w3) = ProcessService_init AnswerService w2
      in case Client_init [stt_service, answer_service, tts_service] u w3 of
           Inl e \<Rightarrow> Raised e
         | Inr (client, w4) \<Rightarrow> serve websocket client w4 [])"

section \<open>Describing schedules\<close>

text \<open>The time that passes during a schedule.\<close>

definition ticks :: "event list \<Rightarrow> nat" where
  "ticks sched = count_list sched Tick"

text \<open>How many statements of its own loop worker \<open>p\<close> runs during a schedule.\<close>

definition runs :: "pid \<Rightarrow> event list \<Rightarrow> nat" where
  "runs p sched = count_list sched (Act p Run)"

text \<open>The queue is empty before each event of the schedule.\<close>

fun empty_during :: "chan \<Rightarrow> event list \<Rightarrow> world \<Rightarrow> bool" where
  "empty_during q [] w = True"
| "empty_during q (e # es) w = (queues w q = [] \<and> empty_during q es (env_step e w))"

section \<open>The identity stage at work\<close>

text \<open>
  Worker \<open>p\<close> runs an \<^verbatim>\<open>AnswerService\<close> from queue \<open>qi\<close> to queue \<open>qo\<close>, and
  no other worker reads or writes either queue.
\<close>

definition apart :: "pid \<Rightarrow> chan \<Rightarrow> chan \<Rightarrow> world \<Rightarrow> bool" where
  "apart p qi qo w =
     (p < length (workers w) \<and>
      target (workers w ! p) =
        \<lparr>service_class = AnswerService, input_buffer = Some qi, output_buffer = Some qo\<rparr> \<and>
      qi \<noteq> qo \<and>
      (\<forall>p'<length (workers w). p' \<noteq> p \<longrightarrow>
         input_buffer (target (workers w ! p')) \<notin> {Some qi, Some qo} \<and>
         output_buffer (target (workers w ! p')) \<notin> {Some qi, Some qo}))"

text \<open>The contents of the two queues and the place of worker \<open>p\<close> in its loop.\<close>

definition stage_at ::
  "pid \<Rightarrow> chan \<Rightarrow> chan \<Rightarrow> pyval list \<Rightarrow> wstate \<Rightarrow> pyval list \<Rightarrow> world \<Rightarrow> bool" where
  "stage_at p qi qo ins st outs w =
     (apart p qi qo w \<and> queues w qi = ins \<and> wstate (workers w ! p) = st \<and>
      queues w qo = outs)"

text \<open>
  The way of one unit \<open>x\<close> through the stage: waiting on the input queue, held by the
  worker, delivered on the output queue.
\<close>

definition carried :: "pid \<Rightarrow> chan \<Rightarrow> chan \<Rightarrow> pyval \<Rightarrow> nat \<Rightarrow> world \<Rightarrow> bool" where
  "carried p qi qo x k w =
     (if k = 0 then stage_at p qi qo [x] Ready [] w
      else if k = 1 then stage_at p qi qo [] (Holding x) [] w
      else stage_at p qi qo [] Ready [x] w)"

section \<open>The rounds of the handler, stated on the queues\<close>

text \<open>
  One round as the specification words it, on the entry and the exit queue of the
  session: push the message onto the entry queue; start the workers and set the flag only
  if the flag is not set; poll the exit queue without waiting; the payload is the unit
  found, or \<^verbatim>\<open>b''\<close> when there is none or it is falsy; give the payload to the peer.
  This is not taken from the handler's code; the handler is compared with it below.
\<close>

definition frontend_round ::
  "chan \<Rightarrow> chan \<Rightarrow> inbound \<Rightarrow> Client \<Rightarrow> world \<Rightarrow> pyval \<times> Client \<times> world" where
  "frontend_round entry exit i client w =
     (let pushed = Queue_put entry (message i) (run_env (before_send i) w);
          (client', started) =
             (if running client then (client, run_env (before_start i) pushed)
              else start (client\<lparr>running := True\<rparr>) (run_env (before_start i) pushed));
          at_poll = run_env (before_receive i) started;
          payload = (case queues at_poll exit of
                       [] \<Rightarrow> PyBytes []
                     | v # vs \<Rightarrow> if truthy v then v else PyBytes [])
      in (payload, client',
          at_poll\<lparr>queues := (queues at_poll)(exit := tl (queues at_poll exit))\<rparr>))"

fun frontend_rounds ::
  "chan \<Rightarrow> chan \<Rightarrow> inbound list \<Rightarrow> Client \<Rightarrow> world \<Rightarrow> frame list \<times> Client \<times> world" where
  "frontend_rounds entry exit [] client w = ([], client, w)"
| "frontend_rounds entry exit (i # rest) client w =
     (let (payload, client', w') = frontend_round entry exit i client w;
          (trace, client'', w'') = frontend_rounds entry exit rest client' w'
      in (Inbound (message i) # Outbound payload # trace, client'', w''))"

text \<open>
  The store and the client that \<^verbatim>\<open>handle_connections\<close> builds before its loop, written
  out: three new stage objects, recognition, synthesis and answer in the order of their
  creation, chained recognition, answer, synthesis over four new queues.
\<close>

definition session_store :: "config \<Rightarrow> world \<Rightarrow> world" where
  "session_store cfg w =
     w\<lparr>queues := (queues w)
          (next_queue w := [], next_queue w + 1 := [], next_queue w + 2 := [],
           next_queue w + 3 := []),
       next_queue := next_queue w + 4,
       objects := (objects w)
          (next_object w :=
             \<lparr>service_class = IbmSttService (STT_IBM_KEY cfg) (STT_IBM_URL cfg),
              input_buffer = Some (next_queue w + 1), output_buffer = Some (next_queue w)\<rparr>,
           next_object w + 1 :=
             \<lparr>service_class = IbmTtsService (TTS_IBM_KEY cfg) (TTS_IBM_URL cfg),
              input_buffer = Some (next_queue w + 2),
              output_buffer = Some (next_queue w + 3)\<rparr>,
           next_object w + 2 :=
             \<lparr>service_class = AnswerService, input_buffer = Some (next_queue w),
              output_buffer = Some (next_queue w + 2)\<rparr>),
       next_object := next_object w + 3\<rparr>"

definition session_client :: "nat \<Rightarrow> world \<Rightarrow> Client" where
  "session_client u w =
     \<lparr>services = [next_object w, next_object w + 2, next_object w + 1], processes = [],
      client_id = u, running = False\<rparr>"

section \<open>An initial store for concrete runs\<close>

text \<open>The store of a process that has created no queue, no stage and no worker yet.\<close>

definition world0 :: world where
  "world0 =
     \<lparr>queues = (\<lambda>_. []), next_queue = 0,
      objects = (\<lambda>_. \<lparr>service_class = AnswerService, input_buffer = None,
                         output_buffer = None\<rparr>),
      next_object = 0, workers = []\<rparr>"

text \<open>
  The store after \<^verbatim>\<open>Manager([AnswerService()])\<close> in the initial store: stage 0 reads
  queue 1 and writes queue 0.
\<close>

definition chain1_world :: world where
  "chain1_world =
     \<lparr>queues = (\<lambda>_. []), next_queue = 2,
      objects = (\<lambda>_. \<lparr>service_class = AnswerService, input_buffer = None,
                         output_buffer = None\<rparr>)
        (0 := \<lparr>service_class = AnswerService, input_buffer = Some 1,
               output_buffer = Some 0\<rparr>),
      next_object = 1, workers = []\<rparr>"

text \<open>
  A frame during whose handling worker 0 runs two statements of its loop before the
  handler polls; a client over the one-stage chain; a configuration.
\<close>

definition frame1 :: inbound where
  "frame1 = \<lparr>message = PyBytes [1], before_send = [], before_start = [],
             before_receive = [Act 0 Run, Act 0 Run]\<rparr>"

text \<open>
  A frame during whose handling the three workers of a session carry one result
  through: the recognition worker 0 reads the chunk and is called back with a
  transcript, the answer worker 1 reads and writes it, the synthesis worker 2 reads it,
  is called back with audio and finishes.
\<close>

definition frame2 :: inbound where
  "frame2 =
     \<lparr>message = PyBytes [1], before_send = [], before_start = [],
      before_receive =
        [Act 0 Run, Act 0 (OnTranscription [[(''transcript'', PyStr ''hi'')]]),
         Act 1 Run, Act 1 Run,
         Act 2 Run, Act 2 (OnAudioStream [9]), Act 2 SynthesisDone]\<rparr>"

definition client1 :: Client where
  "client1 = \<lparr>services = [0], processes = [], client_id = 7, running = False\<rparr>"

definition config0 :: config where
  "config0 = \<lparr>STT_IBM_KEY = ''k1'', STT_IBM_URL = ''u1'', TTS_IBM_KEY = ''k2'',
              TTS_IBM_URL = ''u2''\<rparr>"

text \<open>
  The one-stage chain once started, its manager, and the same store with a second
  \<^verbatim>\<open>AnswerService\<close> object created beside it.
\<close>

definition manager1 :: Manager where
  "manager1 = \<lparr>services = [0], processes = [0]\<rparr>"

definition running1_world :: world where
  "running1_world =
     chain1_world\<lparr>workers :=
       [\<lparr>target = \<lparr>service_class = AnswerService, input_buffer = Some 1,
                    output_buffer = Some 0\<rparr>, wstate = Ready\<rparr>]\<rparr>"

definition second_stage_world :: world where
  "second_stage_world = snd (ProcessService_init AnswerService running1_world)"


section \<open>Wiring\<close>

lemma wire_tail:
  assumes "k \<noteq> 0" and "acc \<noteq> []" and "distinct (acc @ rest)"
    and "output_buffer (objects w (last acc)) = Some c"
  shows "\<exists>w'. wire (enumerate k rest) acc w = Inr (acc @ rest, w') \<and>
           next_queue w' = next_queue w + length rest \<and>
           workers w' = workers w \<and> next_object w' = next_object w \<and>
           (\<forall>a. a \<notin> set rest \<longrightarrow> objects w' a = objects w a) \<and>
           (\<forall>j<length rest.
              service_class (objects w' (rest ! j)) = service_class (objects w (rest ! j)) \<and>
              output_buffer (objects w' (rest ! j)) = Some (next_queue w + j) \<and>
              input_buffer (objects w' (rest ! j)) =
                Some (if j = 0 then c else next_queue w + j - 1)) \<and>
           (\<forall>q. queues w' q =
                (if next_queue w \<le> q \<and> q < next_queue w + length rest then []
                 else queues w q))"
  using assms
proof (induction rest arbitrary: k acc w c)
  case Nil
  then show ?case by auto
next
  case (Cons s rest)
  define w4 where
    "w4 = set_output_buffer s (Some (next_queue w))
            (set_input_buffer s (Some c) (snd (Queue w)))"
  have step: "wire (enumerate k (s # rest)) acc w = wire (enumerate (Suc k) rest) (acc @ [s]) w4"
    using Cons.prems
    by (simp add: w4_def Queue_def set_input_buffer_def set_output_buffer_def)
  have nq: "next_queue w4 = Suc (next_queue w)" and wk: "workers w4 = workers w"
    and no: "next_object w4 = next_object w"
    and ob: "objects w4 = (objects w)(s := (objects w s)\<lparr>input_buffer := Some c, output_buffer := Some (next_queue w)\<rparr>)"
    and qs: "queues w4 = (queues w)(next_queue w := [])"
    by (simp_all add: w4_def Queue_def set_input_buffer_def set_output_buffer_def)
  have pre: "Suc k \<noteq> 0" "acc @ [s] \<noteq> []" "distinct ((acc @ [s]) @ rest)"
    "output_buffer (objects w4 (last (acc @ [s]))) = Some (next_queue w)"
    using Cons.prems by (auto simp: ob)
  from Cons.IH [OF pre] obtain w' where
    r: "wire (enumerate (Suc k) rest) (acc @ [s]) w4 = Inr ((acc @ [s]) @ rest, w')"
    and n': "next_queue w' = next_queue w4 + length rest"
    and wk': "workers w' = workers w4" and no': "next_object w' = next_object w4"
    and fr: "\<forall>a. a \<notin> set rest \<longrightarrow> objects w' a = objects w4 a"
    and bd: "\<forall>j<length rest.
              service_class (objects w' (rest ! j)) = service_class (objects w4 (rest ! j)) \<and>
              output_buffer (objects w' (rest ! j)) = Some (next_queue w4 + j) \<and>
              input_buffer (objects w' (rest ! j)) =
                Some (if j = 0 then next_queue w else next_queue w4 + j - 1)"
    and qs': "\<forall>q. queues w' q =
                (if next_queue w4 \<le> q \<and> q < next_queue w4 + length rest then []
                 else queues w4 q)"
    by blast
  have snot: "s \<notin> set rest" using Cons.prems by simp
  have s': "objects w' s = (objects w s)\<lparr>input_buffer := Some c, output_buffer := Some (next_queue w)\<rparr>"
    using fr snot by (simp add: ob)
  have others: "\<forall>a. a \<notin> set (s # rest) \<longrightarrow> objects w' a = objects w a"
    using fr by (simp add: ob)
  have bound: "\<forall>j<length (s # rest).
              service_class (objects w' ((s # rest) ! j)) = service_class (objects w ((s # rest) ! j)) \<and>
              output_buffer (objects w' ((s # rest) ! j)) = Some (next_queue w + j) \<and>
              input_buffer (objects w' ((s # rest) ! j)) =
                Some (if j = 0 then c else next_queue w + j - 1)"
  proof (intro allI impI)
    fix j assume j: "j < length (s # rest)"
    show "service_class (objects w' ((s # rest) ! j)) = service_class (objects w ((s # rest) ! j)) \<and>
              output_buffer (objects w' ((s # rest) ! j)) = Some (next_queue w + j) \<and>
              input_buffer (objects w' ((s # rest) ! j)) =
                Some (if j = 0 then c else next_queue w + j - 1)"
    proof (cases j)
      case 0
      then show ?thesis by (simp add: s')
    next
      case (Suc j')
      then have j': "j' < length rest" using j by simp
      then have "rest ! j' \<noteq> s" using snot nth_mem by metis
      then show ?thesis using bd j' Suc by (auto simp: nq ob)
    qed
  qed
  have queues': "\<forall>q. queues w' q =
                (if next_queue w \<le> q \<and> q < next_queue w + length (s # rest) then []
                 else queues w q)"
    using qs' by (auto simp: nq qs)
  show ?case
    using step r n' wk' no' others bound queues' by (simp add: nq wk no)
qed


lemma Manager_init_wired:
  assumes "svcs \<noteq> []" and "distinct svcs"
  shows "\<exists>m w'. Manager_init svcs w = Inr (m, w') \<and>
           services m = svcs \<and> processes m = [] \<and> workers w' = workers w \<and>
           (\<forall>i. Suc i < length svcs \<longrightarrow>
               output_buffer (objects w' (svcs ! i)) = input_buffer (objects w' (svcs ! Suc i))) \<and>
           input_buffer (objects w' (svcs ! 0)) = Some (Suc (next_queue w)) \<and>
           (\<forall>i<length svcs.
               output_buffer (objects w' (svcs ! i)) =
                 Some (if i = 0 then next_queue w else next_queue w + i + 1)) \<and>
           (\<forall>i<length svcs.
               input_buffer (objects w' (svcs ! i)) \<noteq> None \<and>
               output_buffer (objects w' (svcs ! i)) \<noteq> None) \<and>
           next_queue w' = next_queue w + length svcs + 1 \<and>
           (\<forall>q. queues w' q =
                (if next_queue w \<le> q \<and> q < next_queue w' then [] else queues w q))"
proof -
  obtain s rest where svcs: "svcs = s # rest"
    using assms(1) by (cases svcs) auto
  define n where "n = next_queue w"
  define w4 where
    "w4 = set_output_buffer s (Some n)
            (set_input_buffer s (Some (Suc n)) (snd (Queue (snd (Queue w)))))"
  have step: "wire (enumerate 0 svcs) [] w = wire (enumerate (Suc 0) rest) [s] w4"
    by (simp add: svcs w4_def n_def Queue_def set_input_buffer_def set_output_buffer_def)
  have nq: "next_queue w4 = n + 2" and wk: "workers w4 = workers w"
    and ob: "objects w4 =
      (objects w)(s := (objects w s)\<lparr>input_buffer := Some (Suc n), output_buffer := Some n\<rparr>)"
    and qs: "queues w4 = (queues w)(n := [], Suc n := [])"
    by (simp_all add: w4_def n_def Queue_def set_input_buffer_def set_output_buffer_def)
  have pre: "Suc 0 \<noteq> 0" "[s] \<noteq> []" "distinct ([s] @ rest)"
    "output_buffer (objects w4 (last [s])) = Some n"
    using assms(2) by (auto simp: svcs ob)
  from wire_tail [OF pre] obtain w' where
    r: "wire (enumerate (Suc 0) rest) [s] w4 = Inr ([s] @ rest, w')"
    and n': "next_queue w' = next_queue w4 + length rest"
    and wk': "workers w' = workers w4"
    and fr: "\<forall>a. a \<notin> set rest \<longrightarrow> objects w' a = objects w4 a"
    and bd: "\<forall>j<length rest.
              output_buffer (objects w' (rest ! j)) = Some (next_queue w4 + j) \<and>
              input_buffer (objects w' (rest ! j)) =
                Some (if j = 0 then n else next_queue w4 + j - 1)"
    and qs': "\<forall>q. queues w' q =
                (if next_queue w4 \<le> q \<and> q < next_queue w4 + length rest then []
                 else queues w4 q)"
    by blast
  have snot: "s \<notin> set rest" using assms(2) by (simp add: svcs)
  have s': "objects w' s =
      (objects w s)\<lparr>input_buffer := Some (Suc n), output_buffer := Some n\<rparr>"
    using fr snot by (simp add: ob)
  have out: "output_buffer (objects w' (svcs ! i)) = Some (if i = 0 then n else n + i + 1)"
    if "i < length svcs" for i
  proof (cases i)
    case 0
    then show ?thesis by (simp add: svcs s')
  next
    case (Suc j)
    then have "j < length rest" using that by (simp add: svcs)
    then show ?thesis using bd Suc by (simp add: svcs nq)
  qed
  have inp: "input_buffer (objects w' (svcs ! i)) =
      Some (if i = 0 then Suc n else if i = 1 then n else n + i)"
    if "i < length svcs" for i
  proof (cases i)
    case 0
    then show ?thesis by (simp add: svcs s')
  next
    case (Suc j)
    then have "j < length rest" using that by (simp add: svcs)
    then show ?thesis using bd Suc by (auto simp: svcs nq)
  qed
  have link: "output_buffer (objects w' (svcs ! i)) = input_buffer (objects w' (svcs ! Suc i))"
    if "Suc i < length svcs" for i
    using out [of i] inp [of "Suc i"] that by auto
  have init: "Manager_init svcs w = Inr (\<lparr>services = svcs, processes = []\<rparr>, w')"
    using step r by (simp add: Manager_init_def svcs)
  have queues': "\<forall>q. queues w' q =
                (if next_queue w \<le> q \<and> q < next_queue w' then [] else queues w q)"
    using qs' by (auto simp: nq qs n' n_def)
  have nqw: "next_queue w' = next_queue w + length svcs + 1"
    by (simp add: n' nq svcs n_def)
  have inp0: "input_buffer (objects w' (svcs ! 0)) = Some (Suc (next_queue w))"
    using inp [of 0] by (simp add: svcs n_def)
  show ?thesis
    using init link inp0 out inp queues' nqw wk wk' unfolding n_def
    by (intro exI [of _ "\<lparr>services = svcs, processes = []\<rparr>"] exI [of _ w']) simp
qed

text \<open>
  C1. Built from a non-empty list of distinct stage objects, the manager holds the list
  in order; every stage's output queue is the next stage's input queue; the entry queue
  of stage 0 is a new queue of its own; the queues are exactly \<open>length svcs + 1\<close>
  new, empty ones, so the exit is the last stage's output and no older queue is used or
  changed; every stage has both queues; no handle is recorded and no worker exists that
  did not exist before.
\<close>

theorem Manager_init_wires_chain:
  assumes "svcs \<noteq> []" and "distinct svcs"
  shows "\<exists>m w'. Manager_init svcs w = Inr (m, w') \<and>
           services m = svcs \<and> processes m = [] \<and> workers w' = workers w \<and>
           (\<forall>i. Suc i < length svcs \<longrightarrow>
               output_buffer (objects w' (svcs ! i)) = input_buffer (objects w' (svcs ! Suc i))) \<and>
           input_buffer (objects w' (svcs ! 0)) = Some (Suc (next_queue w)) \<and>
           (\<forall>i<length svcs.
               output_buffer (objects w' (svcs ! i)) =
                 Some (if i = 0 then next_queue w else next_queue w + i + 1)) \<and>
           (\<forall>i<length svcs.
               input_buffer (objects w' (svcs ! i)) \<noteq> None \<and>
               output_buffer (objects w' (svcs ! i)) \<noteq> None) \<and>
           next_queue w' = next_queue w + length svcs + 1 \<and>
           (\<forall>q. queues w' q =
                (if next_queue w \<le> q \<and> q < next_queue w' then [] else queues w q))"
  using assms by (rule Manager_init_wired)

theorem Manager_init_wires_chain_witness:
  "[0, 1, 2] \<noteq> ([] :: addr list) \<and> distinct [0 :: addr, 1, 2] \<and>
   (case Manager_init [0, 1, 2] world0 of
      Inl e \<Rightarrow> False
    | Inr (m, w') \<Rightarrow>
        services m = [0, 1, 2] \<and> processes m = [] \<and> workers w' = [] \<and>
        input_buffer (objects w' 0) = Some 1 \<and> output_buffer (objects w' 0) = Some 0 \<and>
        input_buffer (objects w' 1) = Some 0 \<and> output_buffer (objects w' 1) = Some 2 \<and>
        input_buffer (objects w' 2) = Some 2 \<and> output_buffer (objects w' 2) = Some 3 \<and>
        next_queue w' = 4)"
proof -
  have h: "[0, 1, 2] \<noteq> ([] :: addr list)" "distinct [0 :: addr, 1, 2]" by simp_all
  from Manager_init_wires_chain [OF h, of world0] obtain m w' where
    init: "Manager_init [0, 1, 2] world0 = Inr (m, w')"
    and m: "services m = [0, 1, 2]" "processes m = []" "workers w' = workers world0"
    and link: "\<forall>i. Suc i < length [0 :: addr, 1, 2] \<longrightarrow>
               output_buffer (objects w' ([0, 1, 2] ! i)) =
                 input_buffer (objects w' ([0, 1, 2] ! Suc i))"
    and entry: "input_buffer (objects w' ([0, 1, 2] ! 0)) = Some (Suc (next_queue world0))"
    and out: "\<forall>i<length [0 :: addr, 1, 2].
               output_buffer (objects w' ([0, 1, 2] ! i)) =
                 Some (if i = 0 then next_queue world0 else next_queue world0 + i + 1)"
    and nq: "next_queue w' = next_queue world0 + length [0 :: addr, 1, 2] + 1"
    by blast
  have o0: "output_buffer (objects w' 0) = Some 0"
    using out [rule_format, of 0] by (simp add: world0_def)
  have o1: "output_buffer (objects w' 1) = Some 2"
    using out [rule_format, of 1] by (simp add: world0_def)
  have o2: "output_buffer (objects w' 2) = Some 3"
    using out [rule_format, of 2] by (simp add: world0_def)
  have i1: "input_buffer (objects w' 1) = Some 0"
    using link [rule_format, of 0] o0 by simp
  have i2: "input_buffer (objects w' 2) = Some 2"
    using link [rule_format, of 1] o1 by simp
  show ?thesis
    using init m entry nq o0 o1 o2 i1 i2 by (simp add: world0_def)
qed

text \<open>
  The stages must be distinct objects: with one object at two places, its second binding
  replaces the first, and place 0's output is no longer place 1's input.
\<close>

lemma wire_shared_stage:
  "(case Manager_init [0, 0] world0 of
      Inl e \<Rightarrow> False
    | Inr (m, w') \<Rightarrow>
        services m = [0, 0] \<and>
        output_buffer (objects w' (services m ! 0)) = Some 2 \<and>
        input_buffer (objects w' (services m ! 1)) = Some 0)"
  by (simp add: Manager_init_def world0_def Queue_def set_input_buffer_def
      set_output_buffer_def)

lemma Manager_init_chain1:
  "ProcessService_init AnswerService world0 = (0, w) \<Longrightarrow>
   Manager_init [0] w = Inr (\<lparr>services = [0], processes = []\<rparr>, chain1_world)"
  by (auto simp add: ProcessService_init_def Manager_init_def world0_def chain1_world_def
      Queue_def set_input_buffer_def set_output_buffer_def fun_eq_iff)

lemma start_chain1:
  "start \<lparr>services = [0], processes = []\<rparr> chain1_world = (manager1, running1_world)"
  by (simp add: start_def Process_start_def manager1_def running1_world_def chain1_world_def)

section \<open>The recognition stage's callback\<close>



section \<open>Receiving without blocking\<close>

text \<open>
  C3. On a manager with at least one stage whose last stage has its output queue,
  whatever the handles, the running flag and the contents of the queues,
  \<^verbatim>\<open>receive(False)\<close> returns \<^verbatim>\<open>None\<close> and changes nothing when the exit queue is
  empty, and otherwise returns the first unit of the exit queue and removes it. Neither
  result depends on a timeout or on what the other processes do: the call does not wait
  and does not raise.
\<close>

theorem receive_nonblocking:
  assumes "services self \<noteq> []"
    and "output_buffer (objects w (last (services self))) = Some q"
  shows "receive self False timeout sched w =
           (case queues w q of
              [] \<Rightarrow> Returned (PyNone, w)
            | v # vs \<Rightarrow> Returned (v, w\<lparr>queues := (queues w)(q := vs)\<rparr>))"
  using assms
  by (simp add: receive_def Queue_empty_def Queue_get_def split: list.splits)

theorem receive_nonblocking_witness:
  "services \<lparr>services = [0 :: addr], processes = []\<rparr> \<noteq> [] \<and>
   output_buffer (objects chain1_world (last [0])) = Some 0 \<and>
   receive \<lparr>services = [0], processes = []\<rparr> False None [] chain1_world =
     Returned (PyNone, chain1_world) \<and>
   receive \<lparr>services = [0], processes = []\<rparr> False None []
       (Queue_put 0 (PyBytes [1, 2]) chain1_world) =
     Returned (PyBytes [1, 2], chain1_world)"
proof -
  have h: "services \<lparr>services = [0 :: addr], processes = []\<rparr> \<noteq> []"
    "output_buffer (objects chain1_world (last (services \<lparr>services = [0], processes = []\<rparr>)))
       = Some 0"
    "output_buffer (objects (Queue_put 0 (PyBytes [1, 2]) chain1_world)
       (last (services \<lparr>services = [0], processes = []\<rparr>))) = Some 0"
    by (simp_all add: chain1_world_def Queue_put_def)
  show ?thesis
    using receive_nonblocking [OF h(1) h(2), of None "[]"]
      receive_nonblocking [OF h(1) h(3), of None "[]"]
    by (simp add: chain1_world_def Queue_put_def fun_eq_iff)
qed

section \<open>Starting the workers\<close>

lemma upt_add_Suc: "[n..<n + Suc k] = n # [Suc n..<Suc n + k]"
  by (simp add: upt_conv_Cons)

lemma start_loop_eq:
  "start_loop svcs procs w =
     (procs @ [length (workers w)..<length (workers w) + length svcs],
      w\<lparr>workers := workers w @ map (\<lambda>s. \<lparr>target = objects w s, wstate = Ready\<rparr>) svcs\<rparr>)"
proof (induction svcs arbitrary: procs w)
  case Nil
  show ?case by simp
next
  case (Cons s svcs)
  show ?case
    using upt_add_Suc [of "length (workers w)" "length svcs"]
    by (simp add: Cons.IH Process_start_def)
qed

lemma enter_loop_eq: "enter_loop svcs procs w = start_loop svcs procs w"
  by (induction svcs arbitrary: procs w) (simp_all add: Process_start_def)

text \<open>
  C4. \<^verbatim>\<open>start\<close> on a chain of \<open>n\<close> stages spawns one worker per stage, in chain
  order, each running its own stage's \<^verbatim>\<open>act\<close> from the top of the loop, and appends
  their \<open>n\<close> handles to \<^verbatim>\<open>self.processes\<close>; the stages and the queues are untouched.
  A manager with no handles yet has exactly \<open>n\<close> after one call. A second call
  spawns and records the same \<open>n\<close> workers again.
\<close>

theorem start_one_worker_per_stage:
  "(case start self w of (self1, w1) \<Rightarrow>
      services self1 = services self \<and>
      processes self1 =
        processes self @ [length (workers w)..<length (workers w) + length (services self)] \<and>
      workers w1 =
        workers w @ map (\<lambda>s. \<lparr>target = objects w s, wstate = Ready\<rparr>) (services self) \<and>
      queues w1 = queues w \<and> objects w1 = objects w \<and>
      (processes self = [] \<longrightarrow> length (processes self1) = length (services self)) \<and>
      (case start self1 w1 of (self2, w2) \<Rightarrow>
         length (processes self2) = length (processes self) + 2 * length (services self) \<and>
         length (workers w2) = length (workers w) + 2 * length (services self) \<and>
         drop (length (workers w1)) (workers w2) = drop (length (workers w)) (workers w1)))"
  by (simp add: start_def start_loop_eq)

theorem start_one_worker_per_stage_witness:
  "processes \<lparr>services = [0, 1, 2], processes = []\<rparr> = [] \<and>
   length (processes (fst (start \<lparr>services = [0, 1, 2], processes = []\<rparr> world0))) = 3 \<and>
   length (workers (snd (start \<lparr>services = [0, 1, 2], processes = []\<rparr> world0))) = 3"
  using start_one_worker_per_stage [of "\<lparr>services = [0, 1, 2], processes = []\<rparr>" world0]
  by (simp add: world0_def split: prod.splits)

text \<open>
  C10. \<^verbatim>\<open>__enter__\<close> leaves the manager and the store exactly as \<^verbatim>\<open>start\<close> does,
  one new handle per stage, and returns the manager itself; \<^verbatim>\<open>__exit__\<close> returns
  \<^verbatim>\<open>None\<close> and changes neither the manager nor the store.
\<close>

theorem enter_is_start:
  "Manager_enter self w = (fst (start self w), start self w) \<and>
   length (processes (fst (Manager_enter self w))) =
     length (processes self) + length (services self) \<and>
   Manager_exit self w = (PyNone, self, w)"
  by (simp add: Manager_enter_def Manager_exit_def start_def enter_loop_eq start_loop_eq
      Let_def)

section \<open>What the workers and the handler leave unchanged\<close>

lemma objects_Queue_put [simp]: "objects (Queue_put q v w) = objects w"
  by (simp add: Queue_put_def)

lemma workers_Queue_put [simp]: "workers (Queue_put q v w) = workers w"
  by (simp add: Queue_put_def)

lemma act_objects: "act a wk w = (wk', w') \<Longrightarrow> objects w' = objects w"
  by (cases a; cases "service_class (target wk)")
     (auto simp: act_def dispatch_def on_transcription_def on_audio_stream_def
       receive_transcript_def
       split: wstate.splits option.splits list.splits sum.splits)

lemma act_workers: "act a wk w = (wk', w') \<Longrightarrow> workers w' = workers w"
  by (cases a; cases "service_class (target wk)")
     (auto simp: act_def dispatch_def on_transcription_def on_audio_stream_def
       receive_transcript_def Queue_put_def
       split: wstate.splits option.splits list.splits sum.splits)

lemma act_target: "act a wk w = (wk', w') \<Longrightarrow> target wk' = target wk"
  by (cases a; cases "service_class (target wk)")
     (auto simp: act_def dispatch_def on_transcription_def on_audio_stream_def
       receive_transcript_def
       split: wstate.splits option.splits list.splits sum.splits)

lemma env_step_Tick [simp]: "env_step Tick w = w"
  by (simp add: env_step_def)

lemma env_step_objects [simp]: "objects (env_step e w) = objects w"
  by (auto simp: env_step_def dest: act_objects split: event.splits prod.splits)

lemma env_step_length_workers [simp]: "length (workers (env_step e w)) = length (workers w)"
  by (auto simp: env_step_def dest: act_workers split: event.splits prod.splits)

lemma run_env_objects [simp]: "objects (run_env es w) = objects w"
  by (induction es arbitrary: w) simp_all

lemma run_env_length_workers [simp]: "length (workers (run_env es w)) = length (workers w)"
  by (induction es arbitrary: w) simp_all

lemma start_objects: "start self w = (self', w') \<Longrightarrow> objects w' = objects w"
  by (auto simp: start_def start_loop_eq)

section \<open>One response for each message\<close>

lemma poll_wired:
  assumes "services client \<noteq> []"
    and "output_buffer (objects w (last (services client))) = Some q"
  shows "poll client w =
           (case queues w q of
              [] \<Rightarrow> Returned (PyBytes [], w)
            | v # vs \<Rightarrow>
                Returned (if truthy v then v else PyBytes [], w\<lparr>queues := (queues w)(q := vs)\<rparr>))"
  using assms
  by (simp add: poll_def receive_def Queue_empty_def Queue_get_def split: list.splits)


lemma send_wired:
  assumes "services client \<noteq> []"
    and "input_buffer (objects w (hd (services client))) = Some qi"
  shows "send client m w = Inr (Queue_put qi m w)"
  using assms by (cases "services client") (simp_all add: send_def)

lemma push_and_start_wired:
  assumes "services client \<noteq> []"
    and "input_buffer (objects w (hd (services client))) = Some qi"
  shows "push_and_start i client w =
           Inr (if running client then client
                else fst (start (client\<lparr>running := True\<rparr>)
                       (run_env (before_start i)
                          (Queue_put qi (message i) (run_env (before_send i) w)))),
                run_env (before_receive i)
                  (if running client
                   then run_env (before_start i)
                          (Queue_put qi (message i) (run_env (before_send i) w))
                   else snd (start (client\<lparr>running := True\<rparr>)
                          (run_env (before_start i)
                             (Queue_put qi (message i) (run_env (before_send i) w))))))"
proof -
  have "send client (message i) (run_env (before_send i) w) =
          Inr (Queue_put qi (message i) (run_env (before_send i) w))"
    using assms by (intro send_wired) simp_all
  then show ?thesis
    by (simp add: push_and_start_def split: prod.splits)
qed

lemma push_and_start_frame:
  assumes "push_and_start i client w = Inr (client', w2)"
  shows "objects w2 = objects w \<and> services client' = services client \<and> running client' \<and>
         client_id client' = client_id client \<and>
         length (processes client') =
           length (processes client) + (if running client then 0 else length (services client)) \<and>
         length (workers w2) =
           length (workers w) + (if running client then 0 else length (services client))"
  using assms
  by (auto simp: push_and_start_def send_def start_def start_loop_eq Let_def
      split: list.splits option.splits if_splits prod.splits sum.splits)

lemma serve_step:
  assumes "services client \<noteq> []"
    and "input_buffer (objects w (hd (services client))) = Some qi"
    and "output_buffer (objects w (last (services client))) = Some qo"
  shows "\<exists>client' w2.
           push_and_start i client w = Inr (client', w2) \<and>
           serve (i # rest) client w trace =
             serve rest client' (w2\<lparr>queues := (queues w2)(qo := tl (queues w2 qo))\<rparr>)
               (trace @ [Inbound (message i),
                         Outbound (case queues w2 qo of
                                     [] \<Rightarrow> PyBytes []
                                   | v # vs \<Rightarrow> if truthy v then v else PyBytes [])])"
proof -
  obtain client' w2 where ps: "push_and_start i client w = Inr (client', w2)"
    using push_and_start_wired [OF assms(1,2)] by blast
  note fr = push_and_start_frame [OF ps]
  have "services client' \<noteq> []" "output_buffer (objects w2 (last (services client'))) = Some qo"
    using fr assms by simp_all
  from poll_wired [OF this] show ?thesis
    using ps by (cases "queues w2 qo") (simp_all add: fun_upd_idem)
qed

lemma serve_wired:
  assumes "services client \<noteq> []"
    and "input_buffer (objects w (hd (services client))) = Some qi"
    and "output_buffer (objects w (last (services client))) = Some qo"
  shows "\<exists>ds client' w'.
           serve ws client w trace =
             Returned (trace @ concat (map (\<lambda>(i, d). [Inbound (message i), Outbound d]) (zip ws ds)),
                       client', w') \<and>
           length ds = length ws \<and>
           (\<forall>d\<in>set ds. truthy d \<or> d = PyBytes []) \<and>
           running client' = (running client \<or> ws \<noteq> []) \<and>
           length (processes client') =
             length (processes client) +
               (if running client \<or> ws = [] then 0 else length (services client)) \<and>
           length (workers w') =
             length (workers w) +
               (if running client \<or> ws = [] then 0 else length (services client))"
  using assms
proof (induction ws arbitrary: client w trace)
  case Nil
  then show ?case by simp
next
  case (Cons i ws)
  from serve_step [OF Cons.prems, of i ws trace] obtain client' w2 where
    ps: "push_and_start i client w = Inr (client', w2)"
    and sv: "serve (i # ws) client w trace =
             serve ws client' (w2\<lparr>queues := (queues w2)(qo := tl (queues w2 qo))\<rparr>)
               (trace @ [Inbound (message i),
                         Outbound (case queues w2 qo of
                                     [] \<Rightarrow> PyBytes []
                                   | v # vs \<Rightarrow> if truthy v then v else PyBytes [])])"
    by blast
  define d where
    "d = (case queues w2 qo of [] \<Rightarrow> PyBytes [] | v # vs \<Rightarrow> if truthy v then v else PyBytes [])"
  define w3 where "w3 = w2\<lparr>queues := (queues w2)(qo := tl (queues w2 qo))\<rparr>"
  have dok: "truthy d \<or> d = PyBytes []"
    by (simp add: d_def split: list.splits)
  note fr = push_and_start_frame [OF ps]
  have pre: "services client' \<noteq> []"
    "input_buffer (objects w3 (hd (services client'))) = Some qi"
    "output_buffer (objects w3 (last (services client'))) = Some qo"
    using fr Cons.prems by (simp_all add: w3_def)
  from Cons.IH [OF pre, of "trace @ [Inbound (message i), Outbound d]"]
  obtain ds client'' w' where
    r: "serve ws client' w3 (trace @ [Inbound (message i), Outbound d]) =
          Returned ((trace @ [Inbound (message i), Outbound d]) @
                      concat (map (\<lambda>(i, d). [Inbound (message i), Outbound d]) (zip ws ds)),
                    client'', w')"
    and len: "length ds = length ws"
    and ok: "\<forall>d\<in>set ds. truthy d \<or> d = PyBytes []"
    and run: "running client'' = (running client' \<or> ws \<noteq> [])"
    and pr: "length (processes client'') =
             length (processes client') +
               (if running client' \<or> ws = [] then 0 else length (services client'))"
    and wk: "length (workers w') =
             length (workers w3) +
               (if running client' \<or> ws = [] then 0 else length (services client'))"
    by blast
  have "serve (i # ws) client w trace =
          Returned (trace @ concat (map (\<lambda>(i, d). [Inbound (message i), Outbound d])
                                     (zip (i # ws) (d # ds))), client'', w')"
    using sv r by (simp add: d_def w3_def)
  moreover have "length (d # ds) = length (i # ws)" using len by simp
  moreover have "\<forall>x\<in>set (d # ds). truthy x \<or> x = PyBytes []" using ok dok by simp
  moreover have "running client'' = (running client \<or> i # ws \<noteq> [])"
    using run fr by simp
  moreover have "length (processes client'') =
             length (processes client) +
               (if running client \<or> i # ws = [] then 0 else length (services client))"
    using pr fr by simp
  moreover have "length (workers w') =
             length (workers w) +
               (if running client \<or> i # ws = [] then 0 else length (services client))"
    using wk fr by (simp add: w3_def)
  ultimately show ?case by blast
qed

lemma Client_init_wired:
  assumes "svcs \<noteq> []" and "distinct svcs"
  shows "\<exists>client w'. Client_init svcs u w = Inr (client, w') \<and>
           services client = svcs \<and> processes client = [] \<and> \<not> running client \<and>
           client_id client = u \<and> workers w' = workers w \<and>
           input_buffer (objects w' (hd svcs)) = Some (Suc (next_queue w)) \<and>
           output_buffer (objects w' (last svcs)) =
             Some (if length svcs = 1 then next_queue w else next_queue w + length svcs)"
proof -
  from Manager_init_wired [OF assms, of w] obtain m w' where
    init: "Manager_init svcs w = Inr (m, w')"
    and m: "services m = svcs" "processes m = []" "workers w' = workers w"
    and entry: "input_buffer (objects w' (svcs ! 0)) = Some (Suc (next_queue w))"
    and out: "\<forall>i<length svcs.
               output_buffer (objects w' (svcs ! i)) =
                 Some (if i = 0 then next_queue w else next_queue w + i + 1)"
    by blast
  have "output_buffer (objects w' (last svcs)) =
             Some (if length svcs = 1 then next_queue w else next_queue w + length svcs)"
    using out [rule_format, of "length svcs - 1"] assms(1)
    by (cases svcs) (auto simp: last_conv_nth)
  then show ?thesis
    using init m entry assms(1) by (simp add: Client_init_def hd_conv_nth)
qed

lemma serve_step_explicit:
  assumes "services client \<noteq> []"
    and "input_buffer (objects w (hd (services client))) = Some qi"
    and "output_buffer (objects w (last (services client))) = Some qo"
  shows "serve (i # rest) client w trace =
          (let w1 = run_env (before_start i)
                      (Queue_put qi (message i) (run_env (before_send i) w));
               (client', w2) =
                  (if running client then (client, w1)
                   else start (client\<lparr>running := True\<rparr>) w1);
               w3 = run_env (before_receive i) w2;
               data = (case queues w3 qo of
                         [] \<Rightarrow> PyBytes []
                       | v # vs \<Rightarrow> if truthy v then v else PyBytes [])
           in serve rest client' (w3\<lparr>queues := (queues w3)(qo := tl (queues w3 qo))\<rparr>)
                (trace @ [Inbound (message i), Outbound data]))"
proof -
  from serve_step [OF assms, of i rest trace] obtain client' w2 where
    ps: "push_and_start i client w = Inr (client', w2)"
    and sv: "serve (i # rest) client w trace =
             serve rest client' (w2\<lparr>queues := (queues w2)(qo := tl (queues w2 qo))\<rparr>)
               (trace @ [Inbound (message i),
                         Outbound (case queues w2 qo of
                                     [] \<Rightarrow> PyBytes []
                                   | v # vs \<Rightarrow> if truthy v then v else PyBytes [])])"
    by blast
  show ?thesis
    using ps unfolding sv push_and_start_wired [OF assms(1,2)]
    by (auto simp: Let_def split: prod.splits)
qed

lemma handle_connections_trace:
  "\<exists>ds client w'.
     handle_connections cfg u websocket w =
       Returned (concat (map (\<lambda>(i, d). [Inbound (message i), Outbound d]) (zip websocket ds)),
                 client, w') \<and>
     length ds = length websocket \<and>
     (\<forall>d\<in>set ds. truthy d \<or> d = PyBytes []) \<and>
     running client = (websocket \<noteq> []) \<and>
     length (processes client) = (if websocket = [] then 0 else 3) \<and>
     length (workers w') = length (workers w) + (if websocket = [] then 0 else 3)"
proof -
  define n where "n = next_object w"
  define w3 where
    "w3 = snd (ProcessService_init AnswerService
            (snd (ProcessService_init (IbmTtsService (TTS_IBM_KEY cfg) (TTS_IBM_URL cfg))
               (snd (ProcessService_init
                  (IbmSttService (STT_IBM_KEY cfg) (STT_IBM_URL cfg)) w)))))"
  have hc: "handle_connections cfg u websocket w =
      (case Client_init [n, Suc (Suc n), Suc n] u w3 of
         Inl e \<Rightarrow> Raised e
       | Inr (client, w4) \<Rightarrow> serve websocket client w4 [])"
    by (simp add: handle_connections_def ProcessService_init_def w3_def n_def)
  have wk3: "workers w3 = workers w"
    by (simp add: w3_def ProcessService_init_def)
  have h: "[n, Suc (Suc n), Suc n] \<noteq> []" "distinct [n, Suc (Suc n), Suc n]" by simp_all
  from Client_init_wired [OF h, of u w3] obtain client w4 where
    ci: "Client_init [n, Suc (Suc n), Suc n] u w3 = Inr (client, w4)"
    and c: "services client = [n, Suc (Suc n), Suc n]" "processes client = []"
      "\<not> running client" "workers w4 = workers w3"
    and entry: "input_buffer (objects w4 (hd [n, Suc (Suc n), Suc n])) = Some (Suc (next_queue w3))"
    and exit: "output_buffer (objects w4 (last [n, Suc (Suc n), Suc n])) =
             Some (if length [n, Suc (Suc n), Suc n] = 1 then next_queue w3
                   else next_queue w3 + length [n, Suc (Suc n), Suc n])"
    by blast
  have pre: "services client \<noteq> []"
    "input_buffer (objects w4 (hd (services client))) = Some (Suc (next_queue w3))"
    "output_buffer (objects w4 (last (services client))) = Some (next_queue w3 + 3)"
    using c entry exit by simp_all
  from serve_wired [OF pre, of websocket "[]"] have "\<exists>ds client w'.
     handle_connections cfg u websocket w =
       Returned (concat (map (\<lambda>(i, d). [Inbound (message i), Outbound d]) (zip websocket ds)),
                 client, w') \<and>
     length ds = length websocket \<and>
     (\<forall>d\<in>set ds. truthy d \<or> d = PyBytes []) \<and>
     running client = (websocket \<noteq> []) \<and>
     length (processes client) = (if websocket = [] then 0 else 3) \<and>
     length (workers w') = length (workers w) + (if websocket = [] then 0 else 3)"
    using hc ci c wk3 by auto
  then show ?thesis .
qed

lemma Client_init_session:
  "Client_init [next_object w, Suc (Suc (next_object w)), Suc (next_object w)] u
     (snd (ProcessService_init AnswerService
        (snd (ProcessService_init (IbmTtsService (TTS_IBM_KEY cfg) (TTS_IBM_URL cfg))
           (snd (ProcessService_init
              (IbmSttService (STT_IBM_KEY cfg) (STT_IBM_URL cfg)) w)))))) =
   Inr (session_client u w, session_store cfg w)"
  by (simp add: ProcessService_init_def Client_init_def Manager_init_def Queue_def
      set_input_buffer_def set_output_buffer_def session_client_def session_store_def
      Let_def eval_nat_numeral fun_eq_iff)

lemma handle_connections_session:
  "handle_connections cfg u websocket w =
     serve websocket (session_client u w) (session_store cfg w) []"
proof -
  have "handle_connections cfg u websocket w =
      (case Client_init [next_object w, Suc (Suc (next_object w)), Suc (next_object w)] u
         (snd (ProcessService_init AnswerService
            (snd (ProcessService_init (IbmTtsService (TTS_IBM_KEY cfg) (TTS_IBM_URL cfg))
               (snd (ProcessService_init
                  (IbmSttService (STT_IBM_KEY cfg) (STT_IBM_URL cfg)) w)))))) of
         Inl e \<Rightarrow> Raised e
       | Inr (client, w4) \<Rightarrow> serve websocket client w4 [])"
    by (simp add: handle_connections_def ProcessService_init_def)
  then show ?thesis by (simp add: Client_init_session)
qed

lemma serve_rounds:
  assumes "services client \<noteq> []"
    and "input_buffer (objects w (hd (services client))) = Some qi"
    and "output_buffer (objects w (last (services client))) = Some qo"
  shows "serve ws client w trace =
           (case frontend_rounds qi qo ws client w of
              (tr, client', w') \<Rightarrow> Returned (trace @ tr, client', w'))"
  using assms
proof (induction ws arbitrary: client w trace)
  case Nil
  then show ?case by simp
next
  case (Cons i ws)
  obtain payload client' w' where r: "frontend_round qi qo i client w = (payload, client', w')"
    by (cases "frontend_round qi qo i client w") auto
  have step: "serve (i # ws) client w trace =
      serve ws client' w' (trace @ [Inbound (message i), Outbound payload])"
    using serve_step_explicit [OF Cons.prems, of i ws trace] r
    by (auto simp: frontend_round_def Let_def split: prod.splits if_splits)
  obtain cl w2 where ps: "push_and_start i client w = Inr (cl, w2)"
    using push_and_start_wired [OF Cons.prems(1,2)] by blast
  note fr = push_and_start_frame [OF ps]
  have same: "client' = cl \<and> objects w' = objects w2"
    using ps r unfolding push_and_start_wired [OF Cons.prems(1,2)]
    by (auto simp: frontend_round_def Let_def split: prod.splits if_splits)
  have pre: "services client' \<noteq> []"
    "input_buffer (objects w' (hd (services client'))) = Some qi"
    "output_buffer (objects w' (last (services client'))) = Some qo"
    using fr same Cons.prems by simp_all
  show ?case
    unfolding step Cons.IH [OF pre] using r by (simp split: prod.splits)
qed

lemma handle_connections_rounds:
  "handle_connections cfg u websocket w =
     Returned (frontend_rounds (Suc (next_queue w)) (next_queue w + 3) websocket
                 (session_client u w) (session_store cfg w))"
proof -
  have pre: "services (session_client u w) \<noteq> []"
    "input_buffer (objects (session_store cfg w) (hd (services (session_client u w)))) =
       Some (Suc (next_queue w))"
    "output_buffer (objects (session_store cfg w) (last (services (session_client u w)))) =
       Some (next_queue w + 3)"
    by (simp_all add: session_client_def session_store_def)
  show ?thesis
    unfolding handle_connections_session serve_rounds [OF pre]
    by (simp split: prod.splits)
qed

text \<open>
  C6. The handler, on any store and any sequence of inbound frames, whatever the workers
  do meanwhile, never raises and never waits; its trace is one inbound frame followed by
  one outbound frame, per frame and in order; every outbound payload is a truthy unit or
  \<^verbatim>\<open>b''\<close>; the three workers are started once, at the first frame, and the flag is
  set. What the handler returns is what the rounds of the specification return on the
  session it has built, with the queue after the first new one as entry and the fourth
  new queue as exit: each round pushes the message onto the entry queue, starts the
  workers only if the flag is not set, polls the exit queue, and gives the peer the unit
  found, or \<^verbatim>\<open>b''\<close> when there is none or it is falsy, before the next frame is
  handled. The same round is what one turn of the loop does on any client whose first
  stage has its input queue and whose last stage has its output queue.
\<close>

theorem handle_connections_one_response_per_message:
  "(\<exists>ds client w'.
     handle_connections cfg u websocket w =
       Returned (concat (map (\<lambda>(i, d). [Inbound (message i), Outbound d]) (zip websocket ds)),
                 client, w') \<and>
     length ds = length websocket \<and>
     (\<forall>d\<in>set ds. truthy d \<or> d = PyBytes []) \<and>
     running client = (websocket \<noteq> []) \<and>
     length (processes client) = (if websocket = [] then 0 else 3) \<and>
     length (workers w') = length (workers w) + (if websocket = [] then 0 else 3)) \<and>
   handle_connections cfg u websocket w =
     Returned (frontend_rounds (Suc (next_queue w)) (next_queue w + 3) websocket
                 (session_client u w) (session_store cfg w)) \<and>
   (services c \<noteq> [] \<and> input_buffer (objects s (hd (services c))) = Some qi \<and>
    output_buffer (objects s (last (services c))) = Some qo \<longrightarrow>
    serve (i # rest) c s trace =
      (let w1 = run_env (before_start i)
                  (Queue_put qi (message i) (run_env (before_send i) s));
           (client', w2) =
              (if running c then (c, w1) else start (c\<lparr>running := True\<rparr>) w1);
           w3 = run_env (before_receive i) w2;
           data = (case queues w3 qo of
                     [] \<Rightarrow> PyBytes []
                   | v # vs \<Rightarrow> if truthy v then v else PyBytes [])
       in serve rest client' (w3\<lparr>queues := (queues w3)(qo := tl (queues w3 qo))\<rparr>)
            (trace @ [Inbound (message i), Outbound data])))"
  using handle_connections_trace [of cfg u websocket w]
    handle_connections_rounds [of cfg u websocket w]
    serve_step_explicit [of c s qi qo i rest trace]
  by blast

theorem handle_connections_one_response_per_message_witness:
  "(case handle_connections config0 7 [frame2, frame1] world0 of
      Returned (tr, client, w') \<Rightarrow>
        tr = [Inbound (PyBytes [1]), Outbound (PyBytes [9]),
              Inbound (PyBytes [1]), Outbound (PyBytes [])] \<and>
        running client \<and> processes client = [0, 1, 2] \<and>
        map wstate (workers w') = [Ready, Ready, Ready] \<and>
        queues w' 1 = [] \<and> queues w' 3 = []
    | _ \<Rightarrow> False) \<and>
   serve [frame1] client1 chain1_world [] =
     Returned ([Inbound (PyBytes [1]), Outbound (PyBytes [1])],
               client1\<lparr>running := True, processes := [0]\<rparr>,
               chain1_world\<lparr>workers :=
                 [\<lparr>target = \<lparr>service_class = AnswerService, input_buffer = Some 1,
                              output_buffer = Some 0\<rparr>, wstate = Ready\<rparr>]\<rparr>)"
proof -
  note t = handle_connections_one_response_per_message
    [of config0 7 "[frame2, frame1]" world0 client1 chain1_world 1 0 frame1 "[]" "[]"]
  define stt where
    "stt = \<lparr>service_class = IbmSttService ''k1'' ''u1'', input_buffer = Some 1,
            output_buffer = Some 0\<rparr>"
  define ans where
    "ans = \<lparr>service_class = AnswerService, input_buffer = Some 0, output_buffer = Some 2\<rparr>"
  define tts where
    "tts = \<lparr>service_class = IbmTtsService ''k2'' ''u2'', input_buffer = Some 2,
            output_buffer = Some 3\<rparr>"
  define base where "base = session_store config0 world0"
  define st where
    "st = (\<lambda>qs a t. base
       \<lparr>queues := qs,
        workers := [\<lparr>target = stt, wstate = Ready\<rparr>, \<lparr>target = ans, wstate = a\<rparr>,
                    \<lparr>target = tts, wstate = t\<rparr>]\<rparr>)"
  define client where "client = (session_client 7 world0)\<lparr>running := True, processes := [0, 1, 2]\<rparr>"
  have ob: "objects base 0 = stt" "objects base (Suc (Suc 0)) = ans"
      "objects base (Suc 0) = tts"
    and qb: "queues base = (\<lambda>_. [])" and wb: "workers base = []"
    by (simp_all add: base_def session_store_def world0_def config0_def stt_def ans_def tts_def
        fun_eq_iff)
  have started: "start ((session_client 7 world0)\<lparr>running := True\<rparr>)
        (Queue_put (Suc 0) (PyBytes [1]) base) =
      (client, st ((\<lambda>_. [])(1 := [PyBytes [1]])) Ready Ready)"
    by (simp add: start_def Process_start_def session_client_def world0_def client_def st_def
        Queue_put_def ob qb wb)
  have e1: "env_step (Act 0 Run) (st ((\<lambda>_. [])(1 := [PyBytes [1]])) Ready Ready) =
      st (\<lambda>_. []) Ready Ready"
    by (simp add: st_def env_step_def act_def stt_def fun_eq_iff)
  have e1': "env_step (Act 0 Run) (st (\<lambda>_. []) Ready Ready) = st (\<lambda>_. []) Ready Ready"
    by (simp add: st_def env_step_def act_def stt_def)
  have e2: "env_step (Act 0 (OnTranscription [[(''transcript'', PyStr ''hi'')]]))
        (st (\<lambda>_. []) Ready Ready) = st ((\<lambda>_. [])(0 := [PyStr ''hi''])) Ready Ready"
    by (simp add: st_def env_step_def act_def stt_def dispatch_def on_transcription_def
        receive_transcript_def dict_get_def Queue_put_def fun_eq_iff)
  have e3: "env_step (Act 1 Run) (st ((\<lambda>_. [])(0 := [PyStr ''hi''])) Ready Ready) =
      st (\<lambda>_. []) (Holding (PyStr ''hi'')) Ready"
    by (simp add: st_def env_step_def act_def ans_def fun_eq_iff)
  have e4: "env_step (Act 1 Run) (st (\<lambda>_. []) (Holding (PyStr ''hi'')) Ready) =
      st ((\<lambda>_. [])(2 := [PyStr ''hi''])) Ready Ready"
    by (simp add: st_def env_step_def act_def ans_def Queue_put_def fun_eq_iff)
  have e5: "env_step (Act 2 Run) (st ((\<lambda>_. [])(2 := [PyStr ''hi''])) Ready Ready) =
      st (\<lambda>_. []) Ready (Holding (PyStr ''hi''))"
    by (simp add: st_def env_step_def act_def tts_def fun_eq_iff)
  have e6: "env_step (Act 2 (OnAudioStream [9])) (st (\<lambda>_. []) Ready (Holding (PyStr ''hi''))) =
      st ((\<lambda>_. [])(3 := [PyBytes [9]])) Ready (Holding (PyStr ''hi''))"
    by (simp add: st_def env_step_def act_def tts_def dispatch_def on_audio_stream_def
        Queue_put_def fun_eq_iff)
  have e7: "env_step (Act 2 SynthesisDone)
        (st ((\<lambda>_. [])(3 := [PyBytes [9]])) Ready (Holding (PyStr ''hi''))) =
      st ((\<lambda>_. [])(3 := [PyBytes [9]])) Ready Ready"
    by (simp add: st_def env_step_def act_def tts_def fun_eq_iff)
  have sched2: "before_receive frame2 =
      [Act 0 Run, Act 0 (OnTranscription [[(''transcript'', PyStr ''hi'')]]),
       Act 1 Run, Act 1 Run, Act 2 Run, Act 2 (OnAudioStream [9]), Act 2 SynthesisDone]"
    and sched1: "before_receive frame1 = [Act 0 Run, Act 0 Run]"
    and other: "before_send frame2 = []" "before_start frame2 = []" "message frame2 = PyBytes [1]"
      "before_send frame1 = []" "before_start frame1 = []" "message frame1 = PyBytes [1]"
    by (simp_all add: frame2_def frame1_def)
  have through: "run_env (before_receive frame2) (st ((\<lambda>_. [])(1 := [PyBytes [1]])) Ready Ready) =
      st ((\<lambda>_. [])(3 := [PyBytes [9]])) Ready Ready"
    by (simp only: sched2 run_env.simps e1 e2 e3 e4 e5 e6 e7)
  have idle: "run_env (before_receive frame1) (st ((\<lambda>_. [])(1 := [PyBytes [1]])) Ready Ready) =
      st (\<lambda>_. []) Ready Ready"
    by (simp only: sched1 run_env.simps e1 e1')
  have nr: "\<not> running (session_client 7 world0)" and r: "running client"
    by (simp_all add: session_client_def client_def)
  have round1: "frontend_round (Suc 0) 3 frame2 (session_client 7 world0) base =
      (PyBytes [9], client, st (\<lambda>_. []) Ready Ready)"
    unfolding frontend_round_def other run_env.simps
    apply (simp only: Let_def nr if_False started prod.case through)
    by (simp add: st_def fun_eq_iff)
  have pushed: "Queue_put (Suc 0) (PyBytes [1]) (st (\<lambda>_. []) Ready Ready) =
      st ((\<lambda>_. [])(1 := [PyBytes [1]])) Ready Ready"
    by (simp add: st_def Queue_put_def fun_eq_iff)
  have round2: "frontend_round (Suc 0) 3 frame1 client (st (\<lambda>_. []) Ready Ready) =
      (PyBytes [], client, st (\<lambda>_. []) Ready Ready)"
    unfolding frontend_round_def other run_env.simps
    apply (simp only: Let_def r if_True pushed idle prod.case)
    by (simp add: st_def fun_eq_iff)
  have "handle_connections config0 7 [frame2, frame1] world0 =
      Returned ([Inbound (PyBytes [1]), Outbound (PyBytes [9]),
                 Inbound (PyBytes [1]), Outbound (PyBytes [])],
                client, st (\<lambda>_. []) Ready Ready)"
    using t
    by (simp add: world0_def [THEN arg_cong, of next_queue] base_def [symmetric] round1 round2 other)
  then have first: "(case handle_connections config0 7 [frame2, frame1] world0 of
      Returned (tr, client, w') \<Rightarrow>
        tr = [Inbound (PyBytes [1]), Outbound (PyBytes [9]),
              Inbound (PyBytes [1]), Outbound (PyBytes [])] \<and>
        running client \<and> processes client = [0, 1, 2] \<and>
        map wstate (workers w') = [Ready, Ready, Ready] \<and>
        queues w' 1 = [] \<and> queues w' 3 = []
    | _ \<Rightarrow> False)"
    by (simp add: client_def st_def)
  have h: "services client1 \<noteq> [] \<and>
      input_buffer (objects chain1_world (hd (services client1))) = Some 1 \<and>
      output_buffer (objects chain1_world (last (services client1))) = Some 0"
    by (simp add: client1_def chain1_world_def)
  have second: "serve [frame1] client1 chain1_world [] =
     Returned ([Inbound (PyBytes [1]), Outbound (PyBytes [1])],
               client1\<lparr>running := True, processes := [0]\<rparr>,
               chain1_world\<lparr>workers :=
                 [\<lparr>target = \<lparr>service_class = AnswerService, input_buffer = Some 1,
                              output_buffer = Some 0\<rparr>, wstate = Ready\<rparr>]\<rparr>)"
    using t h
    by (simp add: frame1_def client1_def chain1_world_def start_def Process_start_def
        Queue_put_def env_step_def act_def fun_eq_iff)
  show ?thesis using first second by simp
qed

text \<open>
  C9. When the exit queue is empty at the poll, or its first unit is falsy
  (\<^verbatim>\<open>None\<close>, \<^verbatim>\<open>0\<close>, \<^verbatim>\<open>b''\<close> or \<^verbatim>\<open>''\<close>), the frame given to the peer is
  \<^verbatim>\<open>b''\<close> in both cases; a falsy unit is removed from the exit queue all the same.
\<close>

theorem falsy_unit_sent_as_empty_payload:
  assumes "push_and_start i client w = Inr (client', w2)"
    and "services client' \<noteq> []"
    and "output_buffer (objects w2 (last (services client'))) = Some q"
    and "queues w2 q = [] \<or> \<not> truthy (hd (queues w2 q))"
  shows "serve (i # rest) client w trace =
           serve rest client' (w2\<lparr>queues := (queues w2)(q := tl (queues w2 q))\<rparr>)
             (trace @ [Inbound (message i), Outbound (PyBytes [])]) \<and>
         (\<not> truthy v) = (v \<in> {PyNone, PyInt 0, PyBytes [], PyStr []})"
proof -
  have "poll client' w2 =
          Returned (PyBytes [], w2\<lparr>queues := (queues w2)(q := tl (queues w2 q))\<rparr>)"
    using poll_wired [OF assms(2,3)] assms(4)
    by (cases "queues w2 q") (auto simp: fun_upd_idem)
  moreover have "(\<not> truthy v) = (v \<in> {PyNone, PyInt 0, PyBytes [], PyStr []})"
    by (cases v) auto
  ultimately show ?thesis using assms(1) by simp
qed

theorem falsy_unit_sent_as_empty_payload_witness:
  "serve [frame1\<lparr>before_receive := []\<rparr>] (client1\<lparr>running := True\<rparr>)
      (Queue_put 0 (PyStr []) chain1_world) [] =
   Returned ([Inbound (PyBytes [1]), Outbound (PyBytes [])], client1\<lparr>running := True\<rparr>,
             Queue_put 1 (PyBytes [1]) chain1_world) \<and>
   serve [frame1\<lparr>before_receive := []\<rparr>] (client1\<lparr>running := True\<rparr>) chain1_world [] =
   Returned ([Inbound (PyBytes [1]), Outbound (PyBytes [])], client1\<lparr>running := True\<rparr>,
             Queue_put 1 (PyBytes [1]) chain1_world)"
proof -
  have a: "push_and_start (frame1\<lparr>before_receive := []\<rparr>) (client1\<lparr>running := True\<rparr>)
             (Queue_put 0 (PyStr []) chain1_world) =
           Inr (client1\<lparr>running := True\<rparr>,
                Queue_put 1 (PyBytes [1]) (Queue_put 0 (PyStr []) chain1_world))"
    and b: "push_and_start (frame1\<lparr>before_receive := []\<rparr>) (client1\<lparr>running := True\<rparr>)
             chain1_world =
           Inr (client1\<lparr>running := True\<rparr>, Queue_put 1 (PyBytes [1]) chain1_world)"
    by (simp_all add: push_and_start_def frame1_def client1_def send_def chain1_world_def
        Queue_put_def)
  have s: "services (client1\<lparr>running := True\<rparr>) \<noteq> []" by (simp add: client1_def)
  have oa: "output_buffer (objects (Queue_put 1 (PyBytes [1]) (Queue_put 0 (PyStr []) chain1_world))
              (last (services (client1\<lparr>running := True\<rparr>)))) = Some 0"
    and ob: "output_buffer (objects (Queue_put 1 (PyBytes [1]) chain1_world)
              (last (services (client1\<lparr>running := True\<rparr>)))) = Some 0"
    by (simp_all add: client1_def chain1_world_def Queue_put_def)
  have qa: "queues (Queue_put 1 (PyBytes [1]) (Queue_put 0 (PyStr []) chain1_world)) 0 = [] \<or>
            \<not> truthy (hd (queues (Queue_put 1 (PyBytes [1])
                                  (Queue_put 0 (PyStr []) chain1_world)) 0))"
    and qb: "queues (Queue_put 1 (PyBytes [1]) chain1_world) 0 = [] \<or>
            \<not> truthy (hd (queues (Queue_put 1 (PyBytes [1]) chain1_world) 0))"
    by (simp_all add: chain1_world_def Queue_put_def)
  show ?thesis
    using falsy_unit_sent_as_empty_payload [OF a s oa qa, of "[]" "[]"]
      falsy_unit_sent_as_empty_payload [OF b s ob qb, of "[]" "[]"]
    by (simp add: frame1_def chain1_world_def Queue_put_def fun_eq_iff)
qed

section \<open>Binding\<close>

lemma wire_binds:
  assumes "k \<noteq> 0 \<longrightarrow> acc \<noteq> []"
    and "\<forall>a\<in>set acc. input_buffer (objects w a) \<noteq> None \<and> output_buffer (objects w a) \<noteq> None"
  shows "\<exists>w'. wire (enumerate k rest) acc w = Inr (acc @ rest, w') \<and>
           workers w' = workers w \<and>
           (\<forall>a\<in>set (acc @ rest).
              input_buffer (objects w' a) \<noteq> None \<and> output_buffer (objects w' a) \<noteq> None)"
  using assms
proof (induction rest arbitrary: k acc w)
  case Nil
  then show ?case by simp
next
  case (Cons s rest)
  show ?case
  proof (cases "k = 0")
    case True
    define w4 where
      "w4 = set_output_buffer s (Some (next_queue w))
              (set_input_buffer s (Some (Suc (next_queue w))) (snd (Queue (snd (Queue w)))))"
    have step: "wire (enumerate k (s # rest)) acc w =
        wire (enumerate (Suc k) rest) (acc @ [s]) w4"
      using True by (simp add: w4_def Queue_def set_input_buffer_def set_output_buffer_def)
    have wk: "workers w4 = workers w"
      by (simp add: w4_def Queue_def set_input_buffer_def set_output_buffer_def)
    have pre: "Suc k \<noteq> 0 \<longrightarrow> acc @ [s] \<noteq> []"
      "\<forall>a\<in>set (acc @ [s]).
         input_buffer (objects w4 a) \<noteq> None \<and> output_buffer (objects w4 a) \<noteq> None"
      using Cons.prems(2)
      by (auto simp: w4_def Queue_def set_input_buffer_def set_output_buffer_def)
    from Cons.IH [OF pre] show ?thesis
      using step wk by auto
  next
    case False
    then have ne: "acc \<noteq> []" using Cons.prems(1) by simp
    then obtain c where c: "output_buffer (objects w (last acc)) = Some c"
      using Cons.prems(2) last_in_set by blast
    define w4 where
      "w4 = set_output_buffer s (Some (next_queue w))
              (set_input_buffer s (Some c) (snd (Queue w)))"
    have step: "wire (enumerate k (s # rest)) acc w =
        wire (enumerate (Suc k) rest) (acc @ [s]) w4"
      using False ne c
      by (simp add: w4_def Queue_def set_input_buffer_def set_output_buffer_def)
    have wk: "workers w4 = workers w"
      by (simp add: w4_def Queue_def set_input_buffer_def set_output_buffer_def)
    have pre: "Suc k \<noteq> 0 \<longrightarrow> acc @ [s] \<noteq> []"
      "\<forall>a\<in>set (acc @ [s]).
         input_buffer (objects w4 a) \<noteq> None \<and> output_buffer (objects w4 a) \<noteq> None"
      using Cons.prems(2)
      by (auto simp: w4_def Queue_def set_input_buffer_def set_output_buffer_def)
    from Cons.IH [OF pre] show ?thesis
      using step wk by auto
  qed
qed

lemma Manager_init_binds:
  "\<exists>m w1. Manager_init svcs w = Inr (m, w1) \<and> services m = svcs \<and> processes m = [] \<and>
     workers w1 = workers w \<and>
     (\<forall>a\<in>set svcs.
        input_buffer (objects w1 a) \<noteq> None \<and> output_buffer (objects w1 a) \<noteq> None)"
proof -
  from wire_binds [of 0 "[]" w svcs] obtain w1 where
    "wire (enumerate 0 svcs) [] w = Inr (svcs, w1)" "workers w1 = workers w"
    "\<forall>a\<in>set svcs.
        input_buffer (objects w1 a) \<noteq> None \<and> output_buffer (objects w1 a) \<noteq> None"
    by auto
  then show ?thesis by (simp add: Manager_init_def)
qed

lemma start_workers:
  "workers (snd (start self w)) =
     workers w @ map (\<lambda>a. \<lparr>target = objects w a, wstate = Ready\<rparr>) (services self)"
  by (simp add: start_def start_loop_eq)

text \<open>
  C8, as stated, fails in both halves. A second \<^verbatim>\<open>set_input_buffer\<close> or
  \<^verbatim>\<open>set_output_buffer\<close> replaces the first binding, and a second manager built over
  an already wired stage rebinds both of its queues. A stage whose input has been set
  back to \<^verbatim>\<open>None\<close> after the wiring is run by \<^verbatim>\<open>start\<close> all the same, and so is
  a stage that was never bound when a process is started on it: the worker's first
  statement, \<^verbatim>\<open>self.input_buffer.get()\<close>, then ends it.
\<close>

theorem rebinding_and_unbound_run:
  "input_buffer (objects (set_input_buffer 0 (Some 3) world0) 0) = Some 3 \<and>
   input_buffer (objects (set_input_buffer 0 (Some 5) (set_input_buffer 0 (Some 3) world0)) 0)
     = Some 5 \<and>
   output_buffer (objects (set_output_buffer 0 (Some 4) world0) 0) = Some 4 \<and>
   output_buffer (objects (set_output_buffer 0 (Some 6) (set_output_buffer 0 (Some 4) world0)) 0)
     = Some 6 \<and>
   input_buffer (objects chain1_world 0) = Some 1 \<and>
   output_buffer (objects chain1_world 0) = Some 0 \<and>
   (case Manager_init [0] chain1_world of
      Inl e \<Rightarrow> False
    | Inr (m, w') \<Rightarrow>
        input_buffer (objects w' 0) = Some 3 \<and> output_buffer (objects w' 0) = Some 2) \<and>
   (case Manager_init [0] (snd (ProcessService_init AnswerService world0)) of
      Inl e \<Rightarrow> False
    | Inr (m, w1) \<Rightarrow>
        (case start m (set_input_buffer 0 None w1) of
           (m', w2) \<Rightarrow>
             length (workers w2) = 1 \<and>
             input_buffer (target (workers w2 ! 0)) = None \<and>
             wstate (workers (env_step (Act 0 Run) w2) ! 0) = Dead)) \<and>
   (case Process_start (objects (snd (ProcessService_init AnswerService world0)) 0)
           (snd (ProcessService_init AnswerService world0)) of
      (p, w2) \<Rightarrow>
        p = 0 \<and> input_buffer (target (workers w2 ! 0)) = None \<and>
        output_buffer (target (workers w2 ! 0)) = None \<and>
        wstate (workers (env_step (Act 0 Run) w2) ! 0) = Dead)"
  by (simp add: set_input_buffer_def set_output_buffer_def world0_def chain1_world_def
      Manager_init_def Queue_def ProcessService_init_def start_def Process_start_def
      env_step_def act_def)

text \<open>
  C8, amended. The two setters store their argument whatever the stage held before, and
  leave the other queue alone. \<^verbatim>\<open>start\<close>, on any manager and any store, spawns one
  worker per stage on the stage as it is at that moment, so the workers it spawns run
  stages with both queues whenever the manager's stages have both. Building a manager,
  over any list of stages and in any store, succeeds and leaves every stage of the list
  with both queues, so the workers of a manager started as it was built all run bound
  stages.
\<close>

theorem binding_overwrites_and_started_stages_are_bound:
  "input_buffer (objects (set_input_buffer s b w) s) = b \<and>
   output_buffer (objects (set_input_buffer s b w) s) = output_buffer (objects w s) \<and>
   output_buffer (objects (set_output_buffer s b w) s) = b \<and>
   input_buffer (objects (set_output_buffer s b w) s) = input_buffer (objects w s) \<and>
   drop (length (workers w)) (workers (snd (start self w))) =
     map (\<lambda>a. \<lparr>target = objects w a, wstate = Ready\<rparr>) (services self) \<and>
   ((\<forall>a\<in>set (services self).
       input_buffer (objects w a) \<noteq> None \<and> output_buffer (objects w a) \<noteq> None) \<longrightarrow>
    (\<forall>wk\<in>set (drop (length (workers w)) (workers (snd (start self w)))).
       input_buffer (target wk) \<noteq> None \<and> output_buffer (target wk) \<noteq> None)) \<and>
   (\<exists>m w1.
      Manager_init svcs w = Inr (m, w1) \<and> services m = svcs \<and>
      (\<forall>a\<in>set svcs.
         input_buffer (objects w1 a) \<noteq> None \<and> output_buffer (objects w1 a) \<noteq> None) \<and>
      length (workers (snd (start m w1))) = length (workers w) + length svcs \<and>
      (\<forall>wk\<in>set (drop (length (workers w)) (workers (snd (start m w1)))).
         input_buffer (target wk) \<noteq> None \<and> output_buffer (target wk) \<noteq> None))"
proof -
  have setters: "input_buffer (objects (set_input_buffer s b w) s) = b \<and>
   output_buffer (objects (set_input_buffer s b w) s) = output_buffer (objects w s) \<and>
   output_buffer (objects (set_output_buffer s b w) s) = b \<and>
   input_buffer (objects (set_output_buffer s b w) s) = input_buffer (objects w s)"
    by (simp add: set_input_buffer_def set_output_buffer_def)
  have new: "drop (length (workers v)) (workers (snd (start m v))) =
     map (\<lambda>a. \<lparr>target = objects v a, wstate = Ready\<rparr>) (services m)"
    for m :: "'b Manager_scheme" and v
    by (simp add: start_workers)
  have run: "\<forall>wk\<in>set (drop (length (workers v)) (workers (snd (start m v)))).
       input_buffer (target wk) \<noteq> None \<and> output_buffer (target wk) \<noteq> None"
    if "\<forall>a\<in>set (services m).
       input_buffer (objects v a) \<noteq> None \<and> output_buffer (objects v a) \<noteq> None"
    for m :: "'b Manager_scheme" and v
    using that by (auto simp: new)
  from Manager_init_binds [of svcs w] obtain m w1 where
    init: "Manager_init svcs w = Inr (m, w1)" "services m = svcs" "workers w1 = workers w"
    and bound: "\<forall>a\<in>set svcs.
         input_buffer (objects w1 a) \<noteq> None \<and> output_buffer (objects w1 a) \<noteq> None"
    by blast
  have "\<forall>wk\<in>set (drop (length (workers w)) (workers (snd (start m w1)))).
         input_buffer (target wk) \<noteq> None \<and> output_buffer (target wk) \<noteq> None"
    using run [of m w1] bound init by simp
  moreover have "length (workers (snd (start m w1))) = length (workers w) + length svcs"
    using init by (simp add: start_workers)
  ultimately have built: "\<exists>m w1.
      Manager_init svcs w = Inr (m, w1) \<and> services m = svcs \<and>
      (\<forall>a\<in>set svcs.
         input_buffer (objects w1 a) \<noteq> None \<and> output_buffer (objects w1 a) \<noteq> None) \<and>
      length (workers (snd (start m w1))) = length (workers w) + length svcs \<and>
      (\<forall>wk\<in>set (drop (length (workers w)) (workers (snd (start m w1)))).
         input_buffer (target wk) \<noteq> None \<and> output_buffer (target wk) \<noteq> None)"
    using init bound by blast
  show ?thesis
    using setters new [of w self] run [of self w] built by blast
qed

theorem binding_overwrites_and_started_stages_are_bound_witness:
  "list_all (\<lambda>a. input_buffer (objects chain1_world a) \<noteq> None \<and>
                  output_buffer (objects chain1_world a) \<noteq> None) (services manager1) \<and>
   list_all (\<lambda>wk. input_buffer (target wk) \<noteq> None \<and> output_buffer (target wk) \<noteq> None)
     (workers (snd (start manager1 chain1_world))) \<and>
   (case Manager_init [0, 0, 1] world0 of
      Inl e \<Rightarrow> False
    | Inr (m, w1) \<Rightarrow>
        list_all (\<lambda>wk. input_buffer (target wk) \<noteq> None \<and> output_buffer (target wk) \<noteq> None)
          (workers (snd (start m w1))) \<and>
        length (workers (snd (start m w1))) = 3)"
proof -
  note t = binding_overwrites_and_started_stages_are_bound
    [of 0 None world0 manager1 "[0, 0, 1]"]
  note u = binding_overwrites_and_started_stages_are_bound
    [of 0 None chain1_world manager1 "[]"]
  have h: "\<forall>a\<in>set (services manager1).
       input_buffer (objects chain1_world a) \<noteq> None \<and>
       output_buffer (objects chain1_world a) \<noteq> None"
    by (simp add: manager1_def chain1_world_def)
  have a: "\<forall>wk\<in>set (drop (length (workers chain1_world))
              (workers (snd (start manager1 chain1_world)))).
       input_buffer (target wk) \<noteq> None \<and> output_buffer (target wk) \<noteq> None"
    using u h by blast
  from t obtain m w1 where
    "Manager_init [0, 0, 1] world0 = Inr (m, w1)"
    "length (workers (snd (start m w1))) = length (workers world0) + length [0 :: addr, 0, 1]"
    "\<forall>wk\<in>set (drop (length (workers world0)) (workers (snd (start m w1)))).
         input_buffer (target wk) \<noteq> None \<and> output_buffer (target wk) \<noteq> None"
    by blast
  then show ?thesis
    using a h by (simp add: world0_def chain1_world_def list_all_iff)
qed

section \<open>Receiving with blocking\<close>

lemma wait_get_ready:
  "queues w q = v # vs \<Longrightarrow>
   wait_get q timeout sched w = Returned (v, w\<lparr>queues := (queues w)(q := vs)\<rparr>)"
  by (cases sched) simp_all

lemma wait_get_arrives:
  assumes "empty_during q pre w" and "queues (run_env pre w) q = v # vs"
    and "pre = [] \<or> timeout = None \<or> (\<exists>t. timeout = Some t \<and> ticks pre < t)"
  shows "wait_get q timeout (pre @ post) w =
           Returned (v, (run_env pre w)\<lparr>queues := (queues (run_env pre w))(q := vs)\<rparr>)"
  using assms
proof (induction pre arbitrary: w timeout)
  case Nil
  then have "queues w q = v # vs" by simp
  from wait_get_ready [OF this, of timeout post] show ?case by (simp add: fun_upd_def)
next
  case (Cons e pre)
  have emp: "queues w q = []" and rest: "empty_during q pre (env_step e w)"
    using Cons.prems(1) by simp_all
  have arr: "queues (run_env pre (env_step e w)) q = v # vs"
    using Cons.prems(2) by simp
  have tm: "timeout = None \<or> (\<exists>t. timeout = Some t \<and> ticks (e # pre) < t)"
    using Cons.prems(3) by simp
  then have nz: "timeout \<noteq> Some 0" by auto
  show ?case
  proof (cases "e = Tick")
    case True
    have "pre = [] \<or> map_option (\<lambda>t. t - 1) timeout = None \<or>
          (\<exists>t. map_option (\<lambda>t. t - 1) timeout = Some t \<and> ticks pre < t)"
      using tm True by (auto simp: ticks_def)
    from Cons.IH [OF _ _ this, of w] rest arr True show ?thesis
      using emp nz by simp
  next
    case False
    have "pre = [] \<or> timeout = None \<or> (\<exists>t. timeout = Some t \<and> ticks pre < t)"
      using tm False by (auto simp: ticks_def)
    from Cons.IH [OF rest arr this] show ?thesis
      using emp nz False by simp
  qed
qed

lemma wait_get_times_out:
  assumes "empty_during q pre w" and "queues (run_env pre w) q = []" and "ticks pre = t"
  shows "wait_get q (Some t) (pre @ post) w = Raised Empty"
  using assms
proof (induction pre arbitrary: w t)
  case Nil
  then show ?case by (cases post) (simp_all add: ticks_def)
next
  case (Cons e pre)
  have emp: "queues w q = []" and rest: "empty_during q pre (env_step e w)"
    using Cons.prems(1) by simp_all
  have still: "queues (run_env pre (env_step e w)) q = []"
    using Cons.prems(2) by simp
  show ?case
  proof (cases "t = 0")
    case True
    then show ?thesis using emp by simp
  next
    case nz: False
    show ?thesis
    proof (cases "e = Tick")
      case True
      then have "ticks pre = t - 1" using Cons.prems(3) by (simp add: ticks_def)
      from Cons.IH [OF _ _ this, of w] rest still True show ?thesis
        using emp nz by simp
    next
      case False
      then have "ticks pre = t" using Cons.prems(3) by (simp add: ticks_def)
      from Cons.IH [OF rest still this] show ?thesis
        using emp nz False by simp
    qed
  qed
qed

lemma wait_get_still_waiting:
  assumes "empty_during q sched w" and "queues (run_env sched w) q = []"
    and "timeout = None \<or> (\<exists>t. timeout = Some t \<and> ticks sched < t)"
  shows "wait_get q timeout sched w = Blocked"
  using assms
proof (induction sched arbitrary: w timeout)
  case Nil
  then show ?case by auto
next
  case (Cons e sched)
  have emp: "queues w q = []" and rest: "empty_during q sched (env_step e w)"
    using Cons.prems(1) by simp_all
  have still: "queues (run_env sched (env_step e w)) q = []"
    using Cons.prems(2) by simp
  have nz: "timeout \<noteq> Some 0" using Cons.prems(3) by auto
  show ?case
  proof (cases "e = Tick")
    case True
    have "map_option (\<lambda>t. t - 1) timeout = None \<or>
          (\<exists>t. map_option (\<lambda>t. t - 1) timeout = Some t \<and> ticks sched < t)"
      using Cons.prems(3) True by (auto simp: ticks_def)
    from Cons.IH [OF _ _ this, of w] rest still True show ?thesis
      using emp nz by simp
  next
    case False
    have "timeout = None \<or> (\<exists>t. timeout = Some t \<and> ticks sched < t)"
      using Cons.prems(3) False by (auto simp: ticks_def)
    from Cons.IH [OF rest still this] show ?thesis
      using emp nz False by simp
  qed
qed

lemma receive_blocking_wired:
  assumes "services self \<noteq> []"
    and "output_buffer (objects w (last (services self))) = Some q"
  shows "receive self True timeout sched w = wait_get q (map_option nat timeout) sched w"
  using assms by (simp add: receive_def Queue_get_def)

text \<open>
  C7. On a manager with at least one stage whose last stage has its output queue, let the
  exit queue stay empty while the other processes perform \<open>pre\<close>. If a unit is on the
  exit queue after \<open>pre\<close>, and either no time has to pass, or there is no timeout, or
  less time than the timeout has passed, \<^verbatim>\<open>receive(True, timeout)\<close> returns that unit
  and removes it. If the queue is still empty when the whole timeout has passed, the call
  raises \<^verbatim>\<open>queue.Empty\<close> and returns no value. Until then it waits.
\<close>

theorem receive_blocking_waits_or_times_out:
  assumes "services self \<noteq> []"
    and "output_buffer (objects w (last (services self))) = Some q"
    and "empty_during q pre w"
  shows "(queues (run_env pre w) q = v # vs \<and>
          (pre = [] \<or> timeout = None \<or> (\<exists>t. timeout = Some t \<and> ticks pre < nat t)) \<longrightarrow>
          receive self True timeout (pre @ post) w =
            Returned (v, (run_env pre w)\<lparr>queues := (queues (run_env pre w))(q := vs)\<rparr>)) \<and>
         (queues (run_env pre w) q = [] \<and> ticks pre = nat t \<longrightarrow>
          receive self True (Some t) (pre @ post) w = Raised Empty) \<and>
         (queues (run_env pre w) q = [] \<and>
          (timeout = None \<or> (\<exists>t. timeout = Some t \<and> ticks pre < nat t)) \<longrightarrow>
          receive self True timeout pre w = Blocked)"
proof (intro conjI impI)
  assume a: "queues (run_env pre w) q = v # vs \<and>
          (pre = [] \<or> timeout = None \<or> (\<exists>t. timeout = Some t \<and> ticks pre < nat t))"
  then have "pre = [] \<or> map_option nat timeout = None \<or>
             (\<exists>t. map_option nat timeout = Some t \<and> ticks pre < t)"
    by auto
  from wait_get_arrives [OF assms(3) _ this, of v vs post] a
  show "receive self True timeout (pre @ post) w =
            Returned (v, (run_env pre w)\<lparr>queues := (queues (run_env pre w))(q := vs)\<rparr>)"
    by (simp add: receive_blocking_wired [OF assms(1,2)])
next
  assume "queues (run_env pre w) q = [] \<and> ticks pre = nat t"
  then show "receive self True (Some t) (pre @ post) w = Raised Empty"
    using wait_get_times_out [OF assms(3), of "nat t" post]
    by (simp add: receive_blocking_wired [OF assms(1,2)])
next
  assume a: "queues (run_env pre w) q = [] \<and>
          (timeout = None \<or> (\<exists>t. timeout = Some t \<and> ticks pre < nat t))"
  then have "map_option nat timeout = None \<or>
             (\<exists>t. map_option nat timeout = Some t \<and> ticks pre < t)"
    by auto
  from wait_get_still_waiting [OF assms(3) _ this] a
  show "receive self True timeout pre w = Blocked"
    by (simp add: receive_blocking_wired [OF assms(1,2)])
qed

theorem receive_blocking_waits_or_times_out_witness:
  "(case receive manager1 True (Some 2) ([Tick, Act 0 Run, Act 0 Run] @ [Tick])
           (Queue_put 1 (PyBytes [1]) running1_world) of
      Returned (v, w') \<Rightarrow> v = PyBytes [1] \<and> queues w' 0 = []
    | _ \<Rightarrow> False) \<and>
   receive manager1 True (Some 2) ([Tick, Act 0 Run, Tick] @ [Act 0 Run])
     (Queue_put 1 (PyBytes [1]) running1_world) = Raised Empty \<and>
   receive manager1 True None [Tick, Act 0 Run]
     (Queue_put 1 (PyBytes [1]) running1_world) = Blocked"
proof -
  define w where "w = Queue_put 1 (PyBytes [1]) running1_world"
  have s: "services manager1 \<noteq> []"
    and o: "output_buffer (objects w (last (services manager1))) = Some 0"
    by (simp_all add: manager1_def w_def running1_world_def chain1_world_def Queue_put_def)
  have ev: "env_step (Act 0 Run) w =
      w\<lparr>queues := (queues w)(1 := []),
         workers := [\<lparr>target = \<lparr>service_class = AnswerService, input_buffer = Some 1,
                    output_buffer = Some 0\<rparr>, wstate = Holding (PyBytes [1])\<rparr>]\<rparr>"
    by (simp add: w_def running1_world_def chain1_world_def Queue_put_def env_step_def act_def)
  have ev2: "env_step (Act 0 Run) (env_step (Act 0 Run) w) =
      w\<lparr>queues := (queues w)(1 := [], 0 := [PyBytes [1]]),
         workers := [\<lparr>target = \<lparr>service_class = AnswerService, input_buffer = Some 1,
                    output_buffer = Some 0\<rparr>, wstate = Ready\<rparr>]\<rparr>"
    unfolding ev
    by (simp add: w_def running1_world_def chain1_world_def Queue_put_def env_step_def act_def)
  have q0: "queues w 0 = []"
    by (simp add: w_def running1_world_def chain1_world_def Queue_put_def)
  have e1: "empty_during 0 [Tick, Act 0 Run, Act 0 Run] w"
    and e2: "empty_during 0 [Tick, Act 0 Run, Tick] w"
    and e3: "empty_during 0 [Tick, Act 0 Run] w"
    by (simp_all add: ev q0)
  have a1: "queues (run_env [Tick, Act 0 Run, Act 0 Run] w) 0 = PyBytes [1] # [] \<and>
      ([Tick, Act 0 Run, Act 0 Run] = [] \<or> Some (2 :: int) = None \<or>
       (\<exists>t. Some (2 :: int) = Some t \<and> ticks [Tick, Act 0 Run, Act 0 Run] < nat t))"
    by (simp add: ev2 ticks_def)
  have a2: "queues (run_env [Tick, Act 0 Run, Tick] w) 0 = [] \<and>
      ticks [Tick, Act 0 Run, Tick] = nat 2"
    by (simp add: ev q0 ticks_def)
  have a3: "queues (run_env [Tick, Act 0 Run] w) 0 = [] \<and>
      (None = (None :: int option) \<or>
       (\<exists>t. (None :: int option) = Some t \<and> ticks [Tick, Act 0 Run] < nat t))"
    by (simp add: ev q0)
  have r1: "receive manager1 True (Some 2) ([Tick, Act 0 Run, Act 0 Run] @ [Tick]) w =
      Returned (PyBytes [1], (run_env [Tick, Act 0 Run, Act 0 Run] w)
        \<lparr>queues := (queues (run_env [Tick, Act 0 Run, Act 0 Run] w))(0 := [])\<rparr>)"
    using receive_blocking_waits_or_times_out
      [OF s o e1, of "PyBytes [1]" "[]" "Some 2" "[Tick]" 0] a1
    by blast
  have r2: "receive manager1 True (Some 2) ([Tick, Act 0 Run, Tick] @ [Act 0 Run]) w =
      Raised Empty"
    using receive_blocking_waits_or_times_out
      [OF s o e2, of "PyBytes [1]" "[]" None "[Act 0 Run]" 2] a2
    by blast
  have r3: "receive manager1 True None [Tick, Act 0 Run] w = Blocked"
    using receive_blocking_waits_or_times_out
      [OF s o e3, of "PyBytes [1]" "[]" None "[]" 0] a3
    by blast
  show ?thesis
    unfolding w_def [symmetric] r1 r2 r3 by simp
qed

section \<open>The identity chain\<close>

lemma act_queues:
  "act a wk w = (wk', w') \<Longrightarrow> input_buffer (target wk) \<noteq> Some q \<Longrightarrow>
   output_buffer (target wk) \<noteq> Some q \<Longrightarrow> queues w' q = queues w q"
  by (cases a; cases "service_class (target wk)")
     (auto simp: act_def dispatch_def on_transcription_def on_audio_stream_def
       receive_transcript_def Queue_put_def
       split: wstate.splits option.splits list.splits sum.splits)

lemma env_step_targets:
  "map target (workers (env_step e w)) = map target (workers w)"
proof (cases e)
  case Tick
  then show ?thesis by simp
next
  case (Act p a)
  show ?thesis
  proof (cases "p < length (workers w)")
    case True
    obtain wk' w' where a: "act a (workers w ! p) w = (wk', w')" by force
    have "map target ((workers w)[p := wk']) = map target (workers w)"
      using act_target [OF a] True by (simp add: map_update list_update_same_conv)
    then show ?thesis
      using Act True a act_workers [OF a] by (simp add: env_step_def)
  next
    case False
    then show ?thesis using Act by (simp add: env_step_def)
  qed
qed

lemma apart_env_step: "apart p qi qo w \<Longrightarrow> apart p qi qo (env_step e w)"
proof -
  assume a: "apart p qi qo w"
  have len: "length (workers (env_step e w)) = length (workers w)"
    using env_step_targets [of e w] by (metis length_map)
  have tg: "target (workers (env_step e w) ! k) = target (workers w ! k)"
    if "k < length (workers w)" for k
    using env_step_targets [of e w] that len by (metis nth_map)
  show ?thesis
    using a unfolding apart_def len by (simp add: tg)
qed

lemma env_step_other:
  assumes "stage_at p qi qo ins st outs w" and "\<forall>a. e \<noteq> Act p a"
  shows "stage_at p qi qo ins st outs (env_step e w)"
proof (cases e)
  case Tick
  then show ?thesis using assms by simp
next
  case (Act p' a)
  have ap: "apart p qi qo w" using assms(1) by (simp add: stage_at_def)
  have ne: "p' \<noteq> p" using assms(2) Act by auto
  show ?thesis
  proof (cases "p' < length (workers w)")
    case True
    obtain wk' w' where a: "act a (workers w ! p') w = (wk', w')" by force
    have away: "input_buffer (target (workers w ! p')) \<notin> {Some qi, Some qo}"
      "output_buffer (target (workers w ! p')) \<notin> {Some qi, Some qo}"
      using ap True ne by (auto simp: apart_def)
    have q1: "queues w' qi = queues w qi" and q2: "queues w' qo = queues w qo"
      using act_queues [OF a] away by auto
    have es: "env_step e w = w'\<lparr>workers := (workers w)[p' := wk']\<rparr>"
      using Act True a act_workers [OF a] by (simp add: env_step_def)
    show ?thesis
      using assms(1) apart_env_step [OF ap, of e] ne q1 q2
      by (simp add: stage_at_def es)
  next
    case False
    then show ?thesis using Act assms by (simp add: env_step_def)
  qed
qed

lemma env_step_self:
  assumes "apart p qi qo w"
  shows "env_step (Act p a) w =
           (let (wk', w') = AnswerService_act a (workers w ! p) w
            in w'\<lparr>workers := (workers w')[p := wk']\<rparr>)"
  using assms by (simp add: apart_def env_step_def act_def)

lemma env_step_not_run:
  assumes "stage_at p qi qo ins st outs w" and "a \<noteq> Run"
  shows "stage_at p qi qo ins st outs (env_step (Act p a) w)"
proof -
  have ap: "apart p qi qo w" using assms(1) by (simp add: stage_at_def)
  have "AnswerService_act a (workers w ! p) w = (workers w ! p, w)"
    using assms(2) by (cases a) simp_all
  then have "env_step (Act p a) w = w"
    using env_step_self [OF ap, of a] by (simp add: list_update_same_conv)
  then show ?thesis using assms(1) by simp
qed

lemma env_step_get:
  assumes "stage_at p qi qo (x # ins) Ready outs w"
  shows "stage_at p qi qo ins (Holding x) outs (env_step (Act p Run) w)"
proof -
  have ap: "apart p qi qo w" using assms(1) by (simp add: stage_at_def)
  have "apart p qi qo (env_step (Act p Run) w)" by (rule apart_env_step [OF ap])
  moreover have "env_step (Act p Run) w =
      w\<lparr>queues := (queues w)(qi := ins),
         workers := (workers w)[p := (workers w ! p)\<lparr>wstate := Holding x\<rparr>]\<rparr>"
    using assms ap by (simp add: env_step_self [OF ap] stage_at_def apart_def)
  ultimately show ?thesis
    using assms by (simp add: stage_at_def apart_def)
qed

lemma env_step_put:
  assumes "stage_at p qi qo ins (Holding x) outs w"
  shows "stage_at p qi qo ins Ready (outs @ [x]) (env_step (Act p Run) w)"
proof -
  have ap: "apart p qi qo w" using assms(1) by (simp add: stage_at_def)
  have "apart p qi qo (env_step (Act p Run) w)" by (rule apart_env_step [OF ap])
  moreover have "env_step (Act p Run) w =
      (Queue_put qo x w)\<lparr>workers := (workers w)[p := (workers w ! p)\<lparr>wstate := Ready\<rparr>]\<rparr>"
    using assms ap by (simp add: env_step_self [OF ap] stage_at_def apart_def)
  ultimately show ?thesis
    using assms by (simp add: stage_at_def apart_def Queue_put_def)
qed

lemma env_step_idle:
  assumes "stage_at p qi qo [] Ready outs w"
  shows "stage_at p qi qo [] Ready outs (env_step (Act p Run) w)"
proof -
  have ap: "apart p qi qo w" using assms(1) by (simp add: stage_at_def)
  have "env_step (Act p Run) w = w"
    using assms ap
    by (simp add: env_step_self [OF ap] stage_at_def apart_def list_update_same_conv)
  then show ?thesis using assms by simp
qed

lemma carried_env_step:
  assumes "carried p qi qo x k w"
  shows "carried p qi qo x (k + (if e = Act p Run then 1 else 0)) (env_step e w)"
proof (cases "e = Act p Run")
  case True
  consider "k = 0" | "k = 1" | "2 \<le> k" by linarith
  then show ?thesis
  proof cases
    case 1
    then show ?thesis using assms True env_step_get [of p qi qo x "[]" "[]" w]
      by (simp add: carried_def)
  next
    case 2
    then show ?thesis using assms True env_step_put [of p qi qo "[]" x "[]" w]
      by (simp add: carried_def)
  next
    case 3
    then show ?thesis using assms True env_step_idle [of p qi qo "[x]" w]
      by (simp add: carried_def)
  qed
next
  case False
  have keep: "stage_at p qi qo ins st outs (env_step e w)"
    if "stage_at p qi qo ins st outs w" for ins st outs
  proof (cases "\<exists>a. e = Act p a")
    case True
    then obtain a where "e = Act p a" "a \<noteq> Run" using False by auto
    then show ?thesis using env_step_not_run [OF that] by simp
  next
    case False
    then show ?thesis using env_step_other [OF that] by simp
  qed
  show ?thesis using assms False keep by (simp add: carried_def)
qed

lemma carried_run_env:
  "carried p qi qo x k w \<Longrightarrow> carried p qi qo x (k + runs p es) (run_env es w)"
proof (induction es arbitrary: k w)
  case Nil
  then show ?case by (simp add: runs_def)
next
  case (Cons e es)
  from Cons.IH [OF carried_env_step [OF Cons.prems, of e]] show ?case
    by (cases "e = Act p Run") (simp_all add: runs_def)
qed

lemma idle_run_env:
  "stage_at p qi qo [] Ready [] w \<Longrightarrow> stage_at p qi qo [] Ready [] (run_env es w)"
proof (induction es arbitrary: w)
  case Nil
  then show ?case by simp
next
  case (Cons e es)
  have "stage_at p qi qo [] Ready [] (env_step e w)"
  proof (cases "\<exists>a. e = Act p a")
    case True
    then obtain a where e: "e = Act p a" by auto
    show ?thesis
      using env_step_not_run [OF Cons.prems, of a] env_step_idle [OF Cons.prems] e
      by (cases "a = Run") simp_all
  next
    case False
    then show ?thesis using env_step_other [OF Cons.prems] by simp
  qed
  from Cons.IH [OF this] show ?case by simp
qed

lemma wait_get_carried:
  assumes "carried p qi qo x k w" and "2 \<le> k + runs p sched"
  shows "\<exists>w'. wait_get qo None sched w = Returned (x, w')"
  using assms
proof (induction sched arbitrary: k w)
  case Nil
  then have "queues w qo = [x]" by (simp add: carried_def stage_at_def runs_def)
  then show ?case by simp
next
  case (Cons e sched)
  show ?case
  proof (cases "2 \<le> k")
    case True
    then have "queues w qo = [x]" using Cons.prems(1) by (simp add: carried_def stage_at_def)
    then show ?thesis by simp
  next
    case False
    then have emp: "queues w qo = []"
      using Cons.prems(1) by (auto simp: carried_def stage_at_def split: if_splits)
    have next_k: "2 \<le> (k + (if e = Act p Run then 1 else 0)) + runs p sched"
      using Cons.prems(2) by (cases "e = Act p Run") (simp_all add: runs_def)
    from Cons.IH [OF carried_env_step [OF Cons.prems(1), of e] next_k]
    show ?thesis using emp by (cases "e = Tick") simp_all
  qed
qed

lemma wait_get_carried_only:
  assumes "carried p qi qo x k w"
  shows "wait_get qo None sched w = Blocked \<or> (\<exists>w'. wait_get qo None sched w = Returned (x, w'))"
  using assms
proof (induction sched arbitrary: k w)
  case Nil
  then show ?case by (cases "queues w qo") (auto simp: carried_def stage_at_def split: if_splits)
next
  case (Cons e sched)
  show ?case
  proof (cases "queues w qo")
    case Nil
    from Cons.IH [OF carried_env_step [OF Cons.prems(1), of e]]
    show ?thesis using Nil by (cases "e = Tick") simp_all
  next
    case (Cons v vs)
    then have "v = x" using Cons.prems(1) by (auto simp: carried_def stage_at_def split: if_splits)
    then show ?thesis using Cons by simp
  qed
qed

lemma runs_append: "runs p (xs @ ys) = runs p xs + runs p ys"
  by (induction xs) (simp_all add: runs_def)

text \<open>
  C5. Take any store whose workers use only queues that exist already, and an
  \<^verbatim>\<open>AnswerService\<close> object in it. Building the manager over that one stage and
  starting it succeed; then, whatever the processes do before the send and between the
  send and the receive, \<^verbatim>\<open>send(x)\<close> succeeds, and \<^verbatim>\<open>receive(True)\<close> returns
  \<open>x\<close> itself as soon as the stage's worker has run the two statements of its loop
  (the read and the write). Under every schedule the call returns \<open>x\<close> or is still
  waiting: it returns no other value and raises nothing.
\<close>

theorem identity_chain_round_trip:
  assumes cls: "service_class (objects w a) = AnswerService"
    and old: "\<forall>wk\<in>set (workers w). \<forall>q.
                input_buffer (target wk) = Some q \<or> output_buffer (target wk) = Some q \<longrightarrow>
                q < next_queue w"
  shows "\<exists>m w1 m' w2.
           Manager_init [a] w = Inr (m, w1) \<and> start m w1 = (m', w2) \<and>
           (\<forall>s0. \<exists>w3.
              send m' x (run_env s0 w2) = Inr w3 \<and>
              (\<forall>s1 sched.
                 (2 \<le> runs (length (workers w)) (s1 @ sched) \<longrightarrow>
                  (\<exists>w'. receive m' True None sched (run_env s1 w3) = Returned (x, w'))) \<and>
                 (receive m' True None sched (run_env s1 w3) = Blocked \<or>
                  (\<exists>w'. receive m' True None sched (run_env s1 w3) = Returned (x, w')))))"
proof -
  define n where "n = next_queue w"
  define p where "p = length (workers w)"
  define stage where
    "stage = \<lparr>service_class = AnswerService, input_buffer = Some (Suc n),
              output_buffer = Some n\<rparr>"
  define w1 where
    "w1 = w\<lparr>queues := (queues w)(n := [], Suc n := []), next_queue := Suc (Suc n),
            objects := (objects w)(a := stage)\<rparr>"
  define m :: Manager where "m = \<lparr>services = [a], processes = []\<rparr>"
  define w2 where "w2 = w1\<lparr>workers := workers w @ [\<lparr>target = stage, wstate = Ready\<rparr>]\<rparr>"
  define m' :: Manager where "m' = \<lparr>services = [a], processes = [p]\<rparr>"
  have st_eq: "(objects w a)\<lparr>input_buffer := Some (Suc n), output_buffer := Some n\<rparr> = stage"
    using cls by (simp add: stage_def)
  have init: "Manager_init [a] w = Inr (m, w1)"
    using st_eq
    by (simp add: Manager_init_def Queue_def set_input_buffer_def set_output_buffer_def
        w1_def m_def n_def)
  have start: "start m w1 = (m', w2)"
    by (simp add: start_def Process_start_def m_def m'_def w1_def w2_def p_def)
  have idle: "stage_at p (Suc n) n [] Ready [] w2"
  proof -
    have "input_buffer (target (workers w2 ! p')) \<notin> {Some (Suc n), Some n} \<and>
          output_buffer (target (workers w2 ! p')) \<notin> {Some (Suc n), Some n}"
      if "p' < length (workers w2)" "p' \<noteq> p" for p'
    proof -
      have lt: "p' < length (workers w)" using that by (simp add: w2_def w1_def p_def)
      then have "workers w ! p' \<in> set (workers w)" by simp
      then have "\<forall>q. input_buffer (target (workers w ! p')) = Some q \<or>
                     output_buffer (target (workers w ! p')) = Some q \<longrightarrow> q < n"
        using old by (simp add: n_def)
      then show ?thesis
        using lt by (auto simp: w2_def w1_def nth_append)
    qed
    then show ?thesis
      by (simp add: stage_at_def apart_def w2_def w1_def p_def stage_def nth_append)
  qed
  have "\<exists>w3. send m' x (run_env s0 w2) = Inr w3 \<and>
              (\<forall>s1 sched.
                 (2 \<le> runs (length (workers w)) (s1 @ sched) \<longrightarrow>
                  (\<exists>w'. receive m' True None sched (run_env s1 w3) = Returned (x, w'))) \<and>
                 (receive m' True None sched (run_env s1 w3) = Blocked \<or>
                  (\<exists>w'. receive m' True None sched (run_env s1 w3) = Returned (x, w'))))"
    for s0
  proof -
    define w3 where "w3 = Queue_put (Suc n) x (run_env s0 w2)"
    have ob2: "objects w2 a = stage" by (simp add: w2_def w1_def)
    have send: "send m' x (run_env s0 w2) = Inr w3"
      by (simp add: send_def m'_def ob2 stage_def w3_def)
    have "stage_at p (Suc n) n [] Ready [] (run_env s0 w2)"
      by (rule idle_run_env [OF idle])
    then have c0: "carried p (Suc n) n x 0 w3"
      by (simp add: carried_def stage_at_def apart_def w3_def Queue_put_def)
    have rc: "receive m' True None sched (run_env s1 w3) =
              wait_get n None sched (run_env s1 w3)" for s1 sched
      using receive_blocking_wired [of m' "run_env s1 w3" n None sched]
      by (simp add: m'_def w3_def ob2 stage_def)
    have "(2 \<le> runs (length (workers w)) (s1 @ sched) \<longrightarrow>
                  (\<exists>w'. receive m' True None sched (run_env s1 w3) = Returned (x, w'))) \<and>
                 (receive m' True None sched (run_env s1 w3) = Blocked \<or>
                  (\<exists>w'. receive m' True None sched (run_env s1 w3) = Returned (x, w')))"
      for s1 sched
    proof -
      have ck: "carried p (Suc n) n x (0 + runs p s1) (run_env s1 w3)"
        by (rule carried_run_env [OF c0])
      have "\<exists>w'. wait_get n None sched (run_env s1 w3) = Returned (x, w')"
        if "2 \<le> runs p (s1 @ sched)"
        using wait_get_carried [OF ck] that by (simp add: runs_append)
      moreover have "wait_get n None sched (run_env s1 w3) = Blocked \<or>
          (\<exists>w'. wait_get n None sched (run_env s1 w3) = Returned (x, w'))"
        by (rule wait_get_carried_only [OF ck])
      ultimately show ?thesis by (simp add: rc p_def)
    qed
    then show ?thesis using send by blast
  qed
  then show ?thesis using init start by blast
qed

theorem identity_chain_round_trip_witness:
  "service_class (objects second_stage_world 1) = AnswerService \<and>
   list_all (\<lambda>wk. input_buffer (target wk) = Some 1 \<and> output_buffer (target wk) = Some 0)
     (workers second_stage_world) \<and>
   next_queue second_stage_world = 2 \<and> length (workers second_stage_world) = 1 \<and>
   (case Manager_init [1] second_stage_world of
      Inl e \<Rightarrow> False
    | Inr (m, w1) \<Rightarrow>
        (case start m w1 of
           (m', w2) \<Rightarrow>
             (case send m' (PyBytes [7, 8]) w2 of
                Inl e \<Rightarrow> False
              | Inr w3 \<Rightarrow>
                  (case receive m' True None [Act 1 Run, Act 0 Run, Tick, Act 1 Run] w3 of
                     Returned (v, w') \<Rightarrow> v = PyBytes [7, 8]
                   | _ \<Rightarrow> False))))"
proof -
  have cls: "service_class (objects second_stage_world 1) = AnswerService"
    and nq: "next_queue second_stage_world = 2"
    and wk: "workers second_stage_world =
      [\<lparr>target = \<lparr>service_class = AnswerService, input_buffer = Some 1,
                    output_buffer = Some 0\<rparr>, wstate = Ready\<rparr>]"
    by (simp_all add: second_stage_world_def ProcessService_init_def running1_world_def
        chain1_world_def)
  have old: "\<forall>wk\<in>set (workers second_stage_world). \<forall>q.
                input_buffer (target wk) = Some q \<or> output_buffer (target wk) = Some q \<longrightarrow>
                q < next_queue second_stage_world"
    by (auto simp: wk nq)
  from identity_chain_round_trip [OF cls old, of "PyBytes [7, 8]"]
  obtain m w1 m' w2 where
    init: "Manager_init [1] second_stage_world = Inr (m, w1)"
    and st: "start m w1 = (m', w2)"
    and rest: "\<forall>s0. \<exists>w3.
              send m' (PyBytes [7, 8]) (run_env s0 w2) = Inr w3 \<and>
              (\<forall>s1 sched.
                 (2 \<le> runs (length (workers second_stage_world)) (s1 @ sched) \<longrightarrow>
                  (\<exists>w'. receive m' True None sched (run_env s1 w3) =
                         Returned (PyBytes [7, 8], w'))) \<and>
                 (receive m' True None sched (run_env s1 w3) = Blocked \<or>
                  (\<exists>w'. receive m' True None sched (run_env s1 w3) =
                         Returned (PyBytes [7, 8], w'))))"
    by blast
  from rest [rule_format, of "[]"] obtain w3 where
    send: "send m' (PyBytes [7, 8]) w2 = Inr w3"
    and rcv: "\<forall>s1 sched.
                 (2 \<le> runs (length (workers second_stage_world)) (s1 @ sched) \<longrightarrow>
                  (\<exists>w'. receive m' True None sched (run_env s1 w3) =
                         Returned (PyBytes [7, 8], w')))"
    by auto
  have "2 \<le> runs (length (workers second_stage_world))
               ([] @ [Act 1 Run, Act 0 Run, Tick, Act 1 Run])"
    by (simp add: wk runs_def)
  with rcv [rule_format, of "[]" "[Act 1 Run, Act 0 Run, Tick, Act 1 Run]"]
  obtain w' where
    "receive m' True None [Act 1 Run, Act 0 Run, Tick, Act 1 Run] w3 =
       Returned (PyBytes [7, 8], w')"
    by auto
  then show ?thesis
    using cls nq wk init st send by simp
qed

end
